theory Spec2Isabelle
  imports Complex_Main
begin

section \<open>Data model\<close>

text \<open>
  The neuron of \<^verbatim>\<open>pymaid\<close> carries two pandas tables: \<^verbatim>\<open>nodes\<close> (one row per
  treenode) and \<^verbatim>\<open>connectors\<close> (one row per synaptic contact).  A table is a list of
  rows, in table order.  The computed columns hold Python's \<^verbatim>\<open>None\<close> as \<open>None\<close>:
  \<^verbatim>\<open>strahler_index\<close> is a field of the row, \<^verbatim>\<open>arbor_confidence\<close> and \<^verbatim>\<open>flow_centrality\<close>
  are returned as maps from treenode id to entry.  Python integers are
  \<open>int\<close>; coordinates and confidence factors are floats in the source and exact reals
  here.  The treenode id is the key of the node table; a lookup by id reads the first row
  that carries it.
\<close>

datatype node_type = Root | Slab | Branch | End

datatype py_error =
  TypeError | KeyError | IndexError | ValueError | NameError | ZeroDivisionError

record treenode =
  treenode_id :: int
  parent_id :: "int option"
  xyz :: "real \<times> real \<times> real"
  confidence :: int
  type :: node_type
  strahler_index :: "int option"

record connector =
  connector_id :: int
  cn_treenode_id :: int
  relation :: int

text \<open>
  \<open>has_strahler\<close> says whether the node table has a \<^verbatim>\<open>strahler_index\<close> column at all
  (\<^verbatim>\<open>'strahler_index' in neuron.nodes\<close>).
\<close>

record neuron =
  nodes :: "treenode list"
  connectors :: "connector list"
  has_strahler :: bool

text \<open>
  Modelled from the spec: \<^verbatim>\<open>graph_utils.generate_list_of_childs\<close> is not among the
  sources; the spec's \<^verbatim>\<open>children_of(node_id)\<close> is the set of nodes whose parent link is
  the given node.  The children are listed in table order.
\<close>

definition generate_list_of_childs :: "treenode list \<Rightarrow> int \<Rightarrow> int list" where
  "generate_list_of_childs ns n = map treenode_id (filter (\<lambda>r. parent_id r = Some n) ns)"

text \<open>
  Modelled from the spec: \<^verbatim>\<open>classify_nodes\<close> is not among the sources; the spec gives
  root = no parent, end = zero children, branch = two or more children, slab = exactly
  one child and a parent.  The algorithms below read the \<^verbatim>\<open>type\<close> column of the table;
  this function says what the column holds for a table kept up to date.
\<close>

definition classify_node :: "treenode list \<Rightarrow> treenode \<Rightarrow> node_type" where
  "classify_node ns r =
     (if parent_id r = None then Root
      else if length (generate_list_of_childs ns (treenode_id r)) = 0 then End
      else if 2 \<le> length (generate_list_of_childs ns (treenode_id r)) then Branch
      else Slab)"

definition classify_nodes :: "treenode list \<Rightarrow> treenode list" where
  "classify_nodes ns = map (\<lambda>r. r\<lparr>type := classify_node ns r\<rparr>) ns"

text \<open>\<^verbatim>\<open>df.nodes.loc[n, 'parent_id']\<close> on the table indexed by treenode id.\<close>

definition loc_parent :: "treenode list \<Rightarrow> int \<Rightarrow> (py_error + int option)" where
  "loc_parent ns n =
     (case find (\<lambda>r. treenode_id r = n) ns of
        None \<Rightarrow> Inl KeyError
      | Some r \<Rightarrow> Inr (parent_id r))"

section \<open>Strahler engine (\<^verbatim>\<open>strahler_index\<close>)\<close>

text \<open>
  The parameter \<^verbatim>\<open>method\<close>: line 356 asks only whether it is \<^verbatim>\<open>'greedy'\<close>; \<^verbatim>\<open>'standard'\<close>,
  the default, stands for every other value.
\<close>

datatype strahler_method = Standard | Greedy

text \<open>
  Lines 348--359: the index of a starting point from the list \<^verbatim>\<open>previous_indices\<close> of
  its children's entries in the \<^verbatim>\<open>strahler_index\<close> dictionary.  An entry may still be
  \<^verbatim>\<open>None\<close>; with two or more entries \<^verbatim>\<open>max\<close> then raises \<^verbatim>\<open>TypeError\<close>.
\<close>

definition this_branch_index ::
  "strahler_method \<Rightarrow> int option list \<Rightarrow> py_error + int option" where
  "this_branch_index method previous_indices =
     (if length previous_indices = 0 then Inr (Some 1)
      else if length previous_indices = 1 then Inr (previous_indices ! 0)
      else if None \<in> set previous_indices then Inl TypeError
      else
        (let vs = map the previous_indices; m = Max (set vs) in
         if 2 \<le> count_list vs m \<or> method = Greedy then Inr (Some (m + 1))
         else Inr (Some m)))"

text \<open>
  Lines 371--383: the walk down the spine.  It follows parent links while the parent is
  neither a branch node nor \<^verbatim>\<open>None\<close>; a lookup that fails (a parent that is not in the
  table) is caught and ends the walk with \<^verbatim>\<open>parent_node = None\<close>.  On a cycle of parent
  links the source loops forever: the walk takes fuel, one unit per iteration, and
  \<open>None\<close> is the run that did not return.  The result is the spine and the last
  \<^verbatim>\<open>parent_node\<close>.
\<close>

fun walk_spine ::
  "nat \<Rightarrow> treenode list \<Rightarrow> int list \<Rightarrow> int option \<Rightarrow> int list \<Rightarrow> (int list \<times> int option) option"
where
  "walk_spine fuel ns branch_nodes None spine = Some (spine, None)"
| "walk_spine fuel ns branch_nodes (Some p) spine =
     (if p \<in> set branch_nodes then Some (spine, Some p)
      else (case fuel of
              0 \<Rightarrow> None
            | Suc fuel' \<Rightarrow>
                walk_spine fuel' ns branch_nodes
                  (case loc_parent ns p of Inl e \<Rightarrow> None | Inr q \<Rightarrow> q) (spine @ [p])))"

text \<open>
  The state of the outer loop: the \<^verbatim>\<open>strahler_index\<close> dictionary (every key starts at
  \<^verbatim>\<open>None\<close>, so a function), \<^verbatim>\<open>nodes_processed\<close> and \<^verbatim>\<open>new_starting_points\<close>.
\<close>

record strahler_state =
  si :: "int \<Rightarrow> int option"
  nodes_processed :: "int list"
  new_starting_points :: "int list"

text \<open>Lines 342--397: the body of the \<^verbatim>\<open>for\<close> loop, for one starting point.\<close>

definition process_starting_point ::
  "nat \<Rightarrow> strahler_method \<Rightarrow> treenode list \<Rightarrow> int list \<Rightarrow> strahler_state \<Rightarrow> int
     \<Rightarrow> (py_error + strahler_state) option" where
  "process_starting_point fuel method ns branch_nodes s en =
     (case this_branch_index method (map (si s) (generate_list_of_childs ns en)) of
        Inl e \<Rightarrow> Some (Inl e)
      | Inr idx \<Rightarrow>
          (case loc_parent ns en of
             Inl e \<Rightarrow> Some (Inl e)
           | Inr parent0 \<Rightarrow>
               (case walk_spine fuel ns branch_nodes parent0 [en] of
                  None \<Rightarrow> None
                | Some (spine, parent_node) \<Rightarrow>
                    (let processed = nodes_processed s @ spine;
                         ready = (case parent_node of
                                    None \<Rightarrow> []
                                  | Some p \<Rightarrow>
                                      if list_all (\<lambda>c. c \<in> set processed)
                                           (generate_list_of_childs ns p)
                                      then [p] else [])
                     in Some (Inr \<lparr> si = (\<lambda>n. if n \<in> set spine then idx else si s n),
                                    nodes_processed = processed,
                                    new_starting_points = new_starting_points s @ ready \<rparr>)))))"

fun process_starting_points ::
  "nat \<Rightarrow> strahler_method \<Rightarrow> treenode list \<Rightarrow> int list \<Rightarrow> strahler_state \<Rightarrow> int list
     \<Rightarrow> (py_error + strahler_state) option" where
  "process_starting_points fuel method ns branch_nodes s [] = Some (Inr s)"
| "process_starting_points fuel method ns branch_nodes s (en # ens) =
     (case process_starting_point fuel method ns branch_nodes s en of
        None \<Rightarrow> None
      | Some (Inl e) \<Rightarrow> Some (Inl e)
      | Some (Inr s') \<Rightarrow> process_starting_points fuel method ns branch_nodes s' ens)"

text \<open>
  Lines 336--405: the \<^verbatim>\<open>while starting_points\<close> loop.  Every starting point of a round
  is processed and then removed, so the next round starts from
  \<^verbatim>\<open>new_starting_points\<close>.  One unit of fuel per round.
\<close>

fun strahler_rounds ::
  "nat \<Rightarrow> nat \<Rightarrow> strahler_method \<Rightarrow> treenode list \<Rightarrow> int list \<Rightarrow> (int \<Rightarrow> int option) \<Rightarrow> int list
     \<Rightarrow> int list \<Rightarrow> (py_error + (int \<Rightarrow> int option)) option" where
  "strahler_rounds rounds fuel method ns branch_nodes idx processed [] = Some (Inr idx)"
| "strahler_rounds 0 fuel method ns branch_nodes idx processed (sp # sps) = None"
| "strahler_rounds (Suc rounds) fuel method ns branch_nodes idx processed (sp # sps) =
     (case process_starting_points fuel method ns branch_nodes
             \<lparr> si = idx, nodes_processed = processed, new_starting_points = [] \<rparr> (sp # sps) of
        None \<Rightarrow> None
      | Some (Inl e) \<Rightarrow> Some (Inl e)
      | Some (Inr s) \<Rightarrow>
          strahler_rounds rounds fuel method ns branch_nodes (si s) (nodes_processed s)
            (new_starting_points s))"

text \<open>
  \<^verbatim>\<open>strahler_index(skdata, method)\<close> on one neuron: the end and branch nodes are read
  from the \<^verbatim>\<open>type\<close> column, the loop runs, and the dictionary becomes the
  \<^verbatim>\<open>strahler_index\<close> column.
\<close>

definition strahler_dict ::
  "nat \<Rightarrow> strahler_method \<Rightarrow> treenode list \<Rightarrow> (py_error + (int \<Rightarrow> int option)) option" where
  "strahler_dict fuel method ns =
     strahler_rounds fuel fuel method ns
       (map treenode_id (filter (\<lambda>r. type r = Branch) ns))
       (\<lambda>n. None) []
       (map treenode_id (filter (\<lambda>r. type r = End) ns))"

definition strahler_index_fn ::
  "nat \<Rightarrow> strahler_method \<Rightarrow> neuron \<Rightarrow> (py_error + neuron) option" where
  "strahler_index_fn fuel method x =
     (case strahler_dict fuel method (nodes x) of
        None \<Rightarrow> None
      | Some (Inl e) \<Rightarrow> Some (Inl e)
      | Some (Inr idx) \<Rightarrow>
          Some (Inr (x\<lparr> nodes := map (\<lambda>r. r\<lparr>strahler_index := idx (treenode_id r)\<rparr>) (nodes x),
                        has_strahler := True \<rparr>)))"


section \<open>Confidence propagation (\<^verbatim>\<open>arbor_confidence\<close>)\<close>

text \<open>Python's \<^verbatim>\<open>xs[i]\<close> on a list or tuple: a negative index counts from the end.\<close>

definition py_index :: "'a list \<Rightarrow> int \<Rightarrow> py_error + 'a" where
  "py_index xs i =
     (if 0 \<le> i \<and> i < int (length xs) then Inr (xs ! nat i)
      else if i < 0 \<and> - int (length xs) \<le> i then Inr (xs ! nat (int (length xs) + i))
      else Inl IndexError)"

text \<open>Line 50: the default of the parameter \<^verbatim>\<open>confidences\<close>.\<close>

definition default_confidences :: "real list" where
  "default_confidences = [1, 9 / 10, 6 / 10, 4 / 10, 2 / 10]"

text \<open>The table as the specification states it, for comparison.\<close>

definition spec_confidences :: "real list" where
  "spec_confidences = [1, 2 / 10, 4 / 10, 6 / 10, 9 / 10, 1]"

text \<open>\<^verbatim>\<open>nodes.loc[this_node].confidence\<close>.\<close>

definition loc_confidence :: "treenode list \<Rightarrow> int \<Rightarrow> py_error + int" where
  "loc_confidence ns n =
     (case find (\<lambda>r. treenode_id r = n) ns of
        None \<Rightarrow> Inl KeyError
      | Some r \<Rightarrow> Inr (confidence r))"

text \<open>
  Lines 71--84: \<^verbatim>\<open>walk_to_leafs\<close>.  The \<^verbatim>\<open>while\<close> loop follows a single child and the
  function calls itself on each child of a fork; \<open>walk_childs\<close> is the \<^verbatim>\<open>for\<close> loop
  over the children.  The \<^verbatim>\<open>arbor_confidence\<close> column is a map from treenode id to its
  entry.  One unit of fuel per node on the way down; on a cycle of child links the
  source never returns, and \<open>None\<close> is that run.
\<close>

function walk_to_leafs ::
  "nat \<Rightarrow> real list \<Rightarrow> treenode list \<Rightarrow> (int \<Rightarrow> real option) \<Rightarrow> int \<Rightarrow> real
     \<Rightarrow> (py_error + (int \<Rightarrow> real option)) option"
and walk_childs ::
  "nat \<Rightarrow> real list \<Rightarrow> treenode list \<Rightarrow> (int \<Rightarrow> real option) \<Rightarrow> int list \<Rightarrow> real
     \<Rightarrow> (py_error + (int \<Rightarrow> real option)) option"
where
  "walk_to_leafs 0 confidences ns ac this_node this_confidence = None"
| "walk_to_leafs (Suc fuel) confidences ns ac this_node this_confidence =
     (case loc_confidence ns this_node of
        Inl e \<Rightarrow> Some (Inl e)
      | Inr k \<Rightarrow>
          (case py_index confidences (5 - k) of
             Inl e \<Rightarrow> Some (Inl e)
           | Inr f \<Rightarrow>
               (case generate_list_of_childs ns this_node of
                  [] \<Rightarrow> Some (Inr (ac(this_node := Some (this_confidence * f))))
                | [c] \<Rightarrow>
                    walk_to_leafs fuel confidences ns
                      (ac(this_node := Some (this_confidence * f))) c (this_confidence * f)
                | c # c' # cs \<Rightarrow>
                    walk_childs fuel confidences ns
                      (ac(this_node := Some (this_confidence * f))) (c # c' # cs)
                      (this_confidence * f))))"
| "walk_childs fuel confidences ns ac [] this_confidence = Some (Inr ac)"
| "walk_childs fuel confidences ns ac (c # cs) this_confidence =
     (case walk_to_leafs fuel confidences ns ac c this_confidence of
        None \<Rightarrow> None
      | Some (Inl e) \<Rightarrow> Some (Inl e)
      | Some (Inr ac') \<Rightarrow> walk_childs fuel confidences ns ac' cs this_confidence)"
  by pat_completeness auto
termination
  by (relation "measures
        [\<lambda>a. case a of Inl (fuel, _) \<Rightarrow> fuel | Inr (fuel, _) \<Rightarrow> fuel,
         \<lambda>a. case a of Inl _ \<Rightarrow> 0 | Inr (_, _, _, _, cs, _) \<Rightarrow> Suc (length cs)]") auto

text \<open>
  Modelled from the spec: the property \<^verbatim>\<open>x.root\<close> of the neuron class is not among the
  sources; a root is a node without a parent.
\<close>

definition root :: "treenode list \<Rightarrow> int list" where
  "root ns = map treenode_id (filter (\<lambda>r. parent_id r = None) ns)"

text \<open>
  Lines 98--110: every root gets 1, and the walk starts at each child of each root with
  \<^verbatim>\<open>this_confidence = 1\<close>.
\<close>

definition arbor_confidence ::
  "nat \<Rightarrow> real list \<Rightarrow> treenode list \<Rightarrow> (py_error + (int \<Rightarrow> real option)) option" where
  "arbor_confidence fuel confidences ns =
     walk_childs fuel confidences ns
       (\<lambda>n. if n \<in> set (root ns) then Some 1 else None)
       (concat (map (generate_list_of_childs ns) (root ns))) 1"

text \<open>The entries of a computed column at the given treenode ids.\<close>

definition column_values ::
  "(py_error + (int \<Rightarrow> 'a option)) option \<Rightarrow> int list \<Rightarrow> (py_error + 'a option list) option" where
  "column_values res ids = map_option (map_sum id (\<lambda>col. map col ids)) res"

text \<open>
  The tree invariant of the data model: treenode ids are unique, and from every node
  the parent links reach a node without parent in at most as many steps as the table
  has rows (so every parent exists and there is no cycle).
\<close>

fun depth :: "nat \<Rightarrow> treenode list \<Rightarrow> int \<Rightarrow> nat option" where
  "depth 0 ns n = None"
| "depth (Suc k) ns n =
     (case find (\<lambda>r. treenode_id r = n) ns of
        None \<Rightarrow> None
      | Some r \<Rightarrow>
          (case parent_id r of
             None \<Rightarrow> Some 0
           | Some p \<Rightarrow> map_option Suc (depth k ns p)))"

definition well_formed :: "treenode list \<Rightarrow> bool" where
  "well_formed ns \<longleftrightarrow>
     distinct (map treenode_id ns) \<and>
     list_all (\<lambda>r. depth (length ns) ns (treenode_id r) \<noteq> None) ns"

section \<open>Pruning (\<^verbatim>\<open>prune_by_strahler\<close>)\<close>

text \<open>
  Modelled from the spec: the neuron class (\<^verbatim>\<open>core\<close>) is not among the sources.
  \<^verbatim>\<open>neuron.soma\<close> is a treenode id or \<^verbatim>\<open>None\<close>; \<^verbatim>\<open>neuron.reroot\<close> reverses parent links
  along the path from the old root to the new one, so it changes the \<^verbatim>\<open>parent_id\<close> and
  the derived \<^verbatim>\<open>type\<close> of rows.  Which links it sets is a parameter:
  \<open>reroot_links c ns new_root n\<close> is the new parent and type of node \<open>n\<close>.  The
  spec has rerooting invalidate the Strahler indices: the rerooted neuron has no
  \<^verbatim>\<open>strahler_index\<close> column.
\<close>

record core_ops =
  soma :: "treenode list \<Rightarrow> int option"
  reroot_links :: "treenode list \<Rightarrow> int \<Rightarrow> int \<Rightarrow> int option \<times> node_type"

definition reroot :: "core_ops \<Rightarrow> neuron \<Rightarrow> int \<Rightarrow> neuron" where
  "reroot c x new_root =
     x\<lparr> nodes := map (\<lambda>r. r\<lparr> parent_id := fst (reroot_links c (nodes x) new_root (treenode_id r)),
                              type := snd (reroot_links c (nodes x) new_root (treenode_id r)),
                              strahler_index := None \<rparr>)
                     (nodes x),
        has_strahler := False \<rparr>"

text \<open>
  Modelled from the spec: \<^verbatim>\<open>_clear_temp_attr\<close> of the neuron class is not among the
  sources.  The spec has pruning and stitching invalidate the cached derived attributes
  of the tree: the cached structures (child index, graph), which the model derives on
  demand, and the Strahler indices, so the neuron has no \<^verbatim>\<open>strahler_index\<close> column
  afterwards and the next call computes it anew.  The derived \<^verbatim>\<open>type\<close> of every node
  is brought up to date.
\<close>

definition clear_temp_attr :: "neuron \<Rightarrow> neuron" where
  "clear_temp_attr x =
     x\<lparr> nodes := classify_nodes (map (\<lambda>r. r\<lparr>strahler_index := None\<rparr>) (nodes x)),
        has_strahler := False \<rparr>"

text \<open>The parameter \<^verbatim>\<open>to_prune\<close>: an int, a list or a \<^verbatim>\<open>range(a, b)\<close>.\<close>

datatype to_prune = PInt int | PList "int list" | PRange int int

text \<open>
  \<^verbatim>\<open>neuron.nodes.strahler_index.max()\<close> as the bound of a \<^verbatim>\<open>range\<close>: the largest entry
  of the column, entries \<^verbatim>\<open>None\<close> skipped; without any entry the result is not an
  integer and \<^verbatim>\<open>range\<close> raises \<^verbatim>\<open>TypeError\<close>.
\<close>

definition strahler_max :: "treenode list \<Rightarrow> py_error + int" where
  "strahler_max ns =
     (case map the (filter (\<lambda>v. v \<noteq> None) (map strahler_index ns)) of
        [] \<Rightarrow> Inl TypeError
      | v # vs \<Rightarrow> Inr (Max (set (v # vs))))"

text \<open>Lines 470--475; \<^verbatim>\<open>range(a, b)\<close> holds the integers from \<open>a\<close> to \<open>b - 1\<close>.\<close>

definition prepare_indices :: "treenode list \<Rightarrow> to_prune \<Rightarrow> py_error + int list" where
  "prepare_indices ns tp =
     (case tp of
        PInt k \<Rightarrow>
          if k < 0 then
            (case strahler_max ns of
               Inl e \<Rightarrow> Inl e
             | Inr m \<Rightarrow> Inr [1 .. m + (k + 1) - 1])
          else Inr [k]
      | PList l \<Rightarrow> Inr l
      | PRange a b \<Rightarrow> Inr [a .. b - 1])"

text \<open>\<^verbatim>\<open>Series.isin\<close> on the \<^verbatim>\<open>strahler_index\<close> column: \<^verbatim>\<open>None\<close> is in no list of ints.\<close>

definition isin :: "int option \<Rightarrow> int list \<Rightarrow> bool" where
  "isin v l = (case v of None \<Rightarrow> False | Some i \<Rightarrow> i \<in> set l)"

text \<open>
  Line 479: \<^verbatim>\<open>parent_dict\<close>; a treenode id that occurs twice keeps the last row.
\<close>

definition parent_dict :: "treenode list \<Rightarrow> int \<Rightarrow> int option option" where
  "parent_dict ns = map_of (rev (map (\<lambda>r. (treenode_id r, parent_id r)) ns))"

text \<open>
  Lines 491--494: the walk to the closest remaining treenode, child to parent.  Past a
  root \<^verbatim>\<open>this_tn\<close> is \<^verbatim>\<open>None\<close> and \<^verbatim>\<open>parent_dict[None]\<close> raises \<^verbatim>\<open>KeyError\<close>.  One unit of
  fuel per iteration.
\<close>

fun relocate_tn ::
  "nat \<Rightarrow> (int \<Rightarrow> int option option) \<Rightarrow> int list \<Rightarrow> int option \<Rightarrow> (py_error + int) option" where
  "relocate_tn fuel pd remaining_tns None = Some (Inl KeyError)"
| "relocate_tn fuel pd remaining_tns (Some t) =
     (if t \<in> set remaining_tns then Some (Inr t)
      else (case fuel of
              0 \<Rightarrow> None
            | Suc fuel' \<Rightarrow>
                (case pd t of
                   None \<Rightarrow> Some (Inl KeyError)
                 | Some q \<Rightarrow> relocate_tn fuel' pd remaining_tns q)))"

text \<open>Lines 488--495: the loop over the connectors whose treenode was removed.\<close>

fun relocate ::
  "nat \<Rightarrow> (int \<Rightarrow> int option option) \<Rightarrow> int list \<Rightarrow> connector list
     \<Rightarrow> (py_error + connector list) option" where
  "relocate fuel pd remaining_tns [] = Some (Inr [])"
| "relocate fuel pd remaining_tns (cn # cns) =
     (if cn_treenode_id cn \<in> set remaining_tns then
        (case relocate fuel pd remaining_tns cns of
           None \<Rightarrow> None
         | Some (Inl e) \<Rightarrow> Some (Inl e)
         | Some (Inr cns') \<Rightarrow> Some (Inr (cn # cns')))
      else
        (case pd (cn_treenode_id cn) of
           None \<Rightarrow> Some (Inl KeyError)
         | Some p \<Rightarrow>
             (case relocate_tn fuel pd remaining_tns p of
                None \<Rightarrow> None
              | Some (Inl e) \<Rightarrow> Some (Inl e)
              | Some (Inr t) \<Rightarrow>
                  (case relocate fuel pd remaining_tns cns of
                     None \<Rightarrow> None
                   | Some (Inl e) \<Rightarrow> Some (Inl e)
                   | Some (Inr cns') \<Rightarrow> Some (Inr (cn\<lparr>cn_treenode_id := t\<rparr> # cns'))))))"

text \<open>
  Lines 463--467: reroot to the soma (\<^verbatim>\<open>if reroot_soma and neuron.soma\<close>: an id 0 is
  false in Python), then compute the Strahler indices when the column is missing or
  an update is forced.
\<close>

definition reroot_to_soma :: "core_ops \<Rightarrow> neuron \<Rightarrow> bool \<Rightarrow> neuron" where
  "reroot_to_soma c x reroot_soma =
     (case soma c (nodes x) of
        None \<Rightarrow> x
      | Some s \<Rightarrow> if reroot_soma \<and> s \<noteq> 0 then reroot c x s else x)"

definition prepare ::
  "core_ops \<Rightarrow> nat \<Rightarrow> neuron \<Rightarrow> bool \<Rightarrow> bool \<Rightarrow> (py_error + neuron) option" where
  "prepare c fuel x reroot_soma force_strahler_update =
     (let x1 = reroot_to_soma c x reroot_soma
      in if \<not> has_strahler x1 \<or> force_strahler_update
         then strahler_index_fn fuel Standard x1
         else Some (Inr x1))"

text \<open>
  Lines 470--482: the rows of a node table that remain when the indices of \<^verbatim>\<open>to_prune\<close>
  are removed.
\<close>

definition prune_nodes :: "treenode list \<Rightarrow> to_prune \<Rightarrow> py_error + treenode list" where
  "prune_nodes ns tp =
     (case prepare_indices ns tp of
        Inl e \<Rightarrow> Inl e
      | Inr l \<Rightarrow> Inr (filter (\<lambda>r. \<not> isin (strahler_index r) l) ns))"

text \<open>Lines 470--509, on the neuron \<open>y\<close> that has its Strahler indices.\<close>

definition prune_prepared ::
  "nat \<Rightarrow> neuron \<Rightarrow> to_prune \<Rightarrow> bool \<Rightarrow> (py_error + neuron) option" where
  "prune_prepared fuel y tp relocate_connectors =
     (case prune_nodes (nodes y) tp of
        Inl e \<Rightarrow> Some (Inl e)
      | Inr kept \<Rightarrow>
          (let remaining_tns = map treenode_id kept
           in case (if \<not> relocate_connectors
                    then Some (Inr (filter (\<lambda>cn. cn_treenode_id cn \<in> set remaining_tns)
                                      (connectors y)))
                    else relocate fuel (parent_dict (nodes y)) remaining_tns (connectors y)) of
                None \<Rightarrow> None
              | Some (Inl e) \<Rightarrow> Some (Inl e)
              | Some (Inr cns) \<Rightarrow>
                  Some (Inr (clear_temp_attr
                    (y\<lparr> nodes := map (\<lambda>r. case parent_id r of
                                            None \<Rightarrow> r
                                          | Some p \<Rightarrow> if p \<in> set remaining_tns then r
                                                      else r\<lparr>parent_id := None\<rparr>) kept,
                        connectors := cns \<rparr>)))))"

definition prune_by_strahler ::
  "core_ops \<Rightarrow> nat \<Rightarrow> neuron \<Rightarrow> to_prune \<Rightarrow> bool \<Rightarrow> bool \<Rightarrow> bool \<Rightarrow> (py_error + neuron) option" where
  "prune_by_strahler c fuel x tp reroot_soma force_strahler_update relocate_connectors =
     (case prepare c fuel x reroot_soma force_strahler_update of
        None \<Rightarrow> None
      | Some (Inl e) \<Rightarrow> Some (Inl e)
      | Some (Inr y) \<Rightarrow> prune_prepared fuel y tp relocate_connectors)"

section \<open>Flow centrality (\<^verbatim>\<open>flow_centrality\<close>)\<close>

text \<open>
  The function works on \<open>y\<close>, the downsampled copy of the neuron
  (\<^verbatim>\<open>y = x.copy(); y.downsample(1000000)\<close>, both in the neuron class), with
  \<^verbatim>\<open>polypre=False\<close>, the default (\<^verbatim>\<open>polypre=True\<close> asks the remote server for connector
  details).  \<^verbatim>\<open>graph_utils.distal_to\<close> is not among the sources and is a parameter:
  \<open>distal_to y a b\<close> is the entry of the returned table for the pair \<open>(a, b)\<close>, true
  when node \<open>a\<close> is distal to node \<open>b\<close>.
\<close>

text \<open>\<^verbatim>\<open>Series.unique()\<close> and the keys of a dict: each value once, in order of first occurrence.\<close>

definition unique :: "int list \<Rightarrow> int list" where
  "unique xs = rev (remdups (rev xs))"

definition pre_node_ids :: "neuron \<Rightarrow> int list" where
  "pre_node_ids y = unique (map cn_treenode_id (filter (\<lambda>cn. relation cn = 0) (connectors y)))"

definition post_node_ids :: "neuron \<Rightarrow> int list" where
  "post_node_ids y = unique (map cn_treenode_id (filter (\<lambda>cn. relation cn = 1) (connectors y)))"

definition total_pre :: "neuron \<Rightarrow> int" where
  "total_pre y = int (length (pre_node_ids y))"

definition total_post :: "neuron \<Rightarrow> int" where
  "total_post y = int (length (post_node_ids y))"

text \<open>Line 918: branch nodes and nodes that hold a connector.\<close>

definition calc_node_ids :: "neuron \<Rightarrow> int list" where
  "calc_node_ids y =
     map treenode_id
       (filter (\<lambda>r. type r = Branch \<or> treenode_id r \<in> set (map cn_treenode_id (connectors y)))
          (nodes y))"

text \<open>
  Lines 921--933: \<^verbatim>\<open>distal_to(y, ids, calc_node_ids).T.sum(axis=1)\<close>, the number of the
  given nodes that are distal to \<open>n\<close>.
\<close>

definition distal_count :: "(neuron \<Rightarrow> int \<Rightarrow> int \<Rightarrow> bool) \<Rightarrow> neuron \<Rightarrow> int list \<Rightarrow> int \<Rightarrow> int" where
  "distal_count distal_to y ids n = int (length (filter (\<lambda>a. distal_to y a n) ids))"

definition distal_pre :: "(neuron \<Rightarrow> int \<Rightarrow> int \<Rightarrow> bool) \<Rightarrow> neuron \<Rightarrow> int \<Rightarrow> int" where
  "distal_pre distal_to y n = distal_count distal_to y (pre_node_ids y) n"

definition distal_post :: "(neuron \<Rightarrow> int \<Rightarrow> int \<Rightarrow> bool) \<Rightarrow> neuron \<Rightarrow> int \<Rightarrow> int" where
  "distal_post distal_to y n = distal_count distal_to y (post_node_ids y) n"

text \<open>Lines 937 and 941, the values of the two dictionaries at \<open>n\<close>.\<close>

definition centrifugal :: "(neuron \<Rightarrow> int \<Rightarrow> int \<Rightarrow> bool) \<Rightarrow> neuron \<Rightarrow> int \<Rightarrow> int" where
  "centrifugal distal_to y n =
     (total_post y - distal_post distal_to y n) * distal_pre distal_to y n"

definition centripetal :: "(neuron \<Rightarrow> int \<Rightarrow> int \<Rightarrow> bool) \<Rightarrow> neuron \<Rightarrow> int \<Rightarrow> int" where
  "centripetal distal_to y n =
     distal_post distal_to y n * (total_post y - distal_pre distal_to y n)"

text \<open>
  Lines 887--958.  The result is the \<^verbatim>\<open>flow_centrality\<close> column as a map from treenode
  id to its entry: \<^verbatim>\<open>None\<close> everywhere, then the values at the keys of the dictionary
  \<^verbatim>\<open>centrifugal\<close>.  In mode \<^verbatim>\<open>'centripetal'\<close> that dictionary was never assigned, and
  line 958 raises \<^verbatim>\<open>NameError\<close>.
\<close>

definition flow_centrality ::
  "(neuron \<Rightarrow> int \<Rightarrow> int \<Rightarrow> bool) \<Rightarrow> neuron \<Rightarrow> string \<Rightarrow> py_error + (int \<Rightarrow> int option)" where
  "flow_centrality distal_to y mode =
     (if mode \<notin> {''centrifugal'', ''centripetal'', ''sum''} then Inl ValueError
      else if mode = ''centripetal'' then Inl NameError
      else
        (let keys = unique (calc_node_ids y);
             res = (if mode = ''centrifugal'' then map (centrifugal distal_to y) keys
                    else map2 (+) (map (centrifugal distal_to y) keys)
                                  (map (centripetal distal_to y) keys))
         in Inr (map_of (zip keys res))))"

section \<open>Stitching (\<^verbatim>\<open>stitch_neurons\<close>)\<close>

text \<open>\<^verbatim>\<open>scipy.spatial.distance.cdist(..., metric='euclidean')\<close>, one entry.\<close>

definition euclidean :: "real \<times> real \<times> real \<Rightarrow> real \<times> real \<times> real \<Rightarrow> real" where
  "euclidean a b =
     sqrt ((fst a - fst b)\<^sup>2 + (fst (snd a) - fst (snd b))\<^sup>2 + (snd (snd a) - snd (snd b))\<^sup>2)"

text \<open>\<^verbatim>\<open>numpy.argmin\<close> on a non-empty vector: the first position of the least entry.\<close>

definition argmin :: "real list \<Rightarrow> nat" where
  "argmin vs = length (takeWhile (\<lambda>v. v \<noteq> Min (set vs)) vs)"

text \<open>
  Lines 1048--1053, without \<^verbatim>\<open>tn_to_stitch\<close>: the candidate rows of a node table.
\<close>

definition candidates :: "string option \<Rightarrow> treenode list \<Rightarrow> treenode list" where
  "candidates method ns =
     (if method = Some ''LEAFS'' then filter (\<lambda>r. type r = End \<or> type r = Root) ns else ns)"

text \<open>
  Lines 1056--1062.  \<^verbatim>\<open>dist\<close> has one row per candidate of A and one column per
  candidate of B.  \<^verbatim>\<open>dist.argmin(axis=0)[0]\<close> is the row of the least entry in column 0,
  \<^verbatim>\<open>dist.argmin(axis=1)[0]\<close> the column of the least entry in row 0.  Without rows
  \<^verbatim>\<open>argmin\<close> raises \<^verbatim>\<open>ValueError\<close>; without columns the \<^verbatim>\<open>[0]\<close> raises \<^verbatim>\<open>IndexError\<close>.
  The tables carry their default index, so \<^verbatim>\<open>.loc\<close> with a position reads the row at
  that position.
\<close>

definition closest_treenodes :: "treenode list \<Rightarrow> treenode list \<Rightarrow> py_error + int \<times> int" where
  "closest_treenodes treenodesA treenodesB =
     (if treenodesA = [] then Inl ValueError
      else if treenodesB = [] then Inl IndexError
      else Inr
        (treenode_id (treenodesA !
           argmin (map (\<lambda>a. euclidean (xyz a) (xyz (treenodesB ! 0))) treenodesA)),
         treenode_id (treenodesB !
           argmin (map (\<lambda>b. euclidean (xyz (treenodesA ! 0)) (xyz b)) treenodesB))))"

text \<open>
  The least entry of the whole table \<^verbatim>\<open>dist\<close>, the distance of the globally closest
  pair of candidates.
\<close>

definition min_distance :: "treenode list \<Rightarrow> treenode list \<Rightarrow> real" where
  "min_distance treenodesA treenodesB =
     Min (set (concat (map (\<lambda>a. map (\<lambda>b. euclidean (xyz a) (xyz b)) treenodesB) treenodesA)))"

text \<open>
  Lines 1043--1075, one neuron \<^verbatim>\<open>nB\<close> after the other: find the two treenodes, reroot
  \<^verbatim>\<open>nB\<close> onto its one, give the rows of \<^verbatim>\<open>nB\<close> without parent the other as parent, and
  append the tables.  Tags are not part of the model.
\<close>

fun stitch_loop :: "core_ops \<Rightarrow> string option \<Rightarrow> neuron \<Rightarrow> neuron list \<Rightarrow> py_error + neuron" where
  "stitch_loop c method stitched_n [] = Inr (clear_temp_attr stitched_n)"
| "stitch_loop c method stitched_n (nB # rest) =
     (case closest_treenodes (candidates method (nodes stitched_n))
                             (candidates method (nodes nB)) of
        Inl e \<Rightarrow> Inl e
      | Inr (tnA, tnB) \<Rightarrow>
          stitch_loop c method
            (stitched_n
               \<lparr> nodes := nodes stitched_n @
                    map (\<lambda>r. if parent_id r = None then r\<lparr>parent_id := Some tnA\<rparr> else r)
                        (nodes (reroot c nB tnB)),
                 connectors := connectors stitched_n @ connectors nB \<rparr>)
            rest)"

text \<open>
  Lines 1002--1080, for a call without \<^verbatim>\<open>tn_to_stitch\<close>.  \<open>method = None\<close> is Python's
  \<^verbatim>\<open>None\<close>.  With fewer than two neurons the function logs a warning and returns
  \<^verbatim>\<open>neurons[0]\<close>.
\<close>

definition stitch_neurons :: "core_ops \<Rightarrow> neuron list \<Rightarrow> string option \<Rightarrow> py_error + neuron" where
  "stitch_neurons c neurons method =
     (if method \<notin> {Some ''LEAFS'', Some ''ALL'', Some ''NONE'', None} then Inl ValueError
      else if length neurons < 2 then py_index neurons 0
      else if method = Some ''NONE'' \<or> method = None then
        Inr (clear_temp_attr
          ((neurons ! 0)
             \<lparr> nodes := concat (map nodes neurons),
               connectors := concat (map connectors neurons),
               has_strahler := list_ex has_strahler neurons \<rparr>))
      else stitch_loop c method (neurons ! 0) (tl neurons))"

section \<open>Segregation index (\<^verbatim>\<open>segregation_index\<close>)\<close>

text \<open>
  Modelled from the spec: the properties \<^verbatim>\<open>n_connectors\<close> and \<^verbatim>\<open>n_postsynapses\<close> of the
  neuron class are not among the sources; they count the rows of the connector table
  and those of them that are postsynaptic (\<^verbatim>\<open>relation == 1\<close>).
\<close>

definition n_connectors :: "neuron \<Rightarrow> nat" where
  "n_connectors n = length (connectors n)"

definition n_postsynapses :: "neuron \<Rightarrow> nat" where
  "n_postsynapses n = length (filter (\<lambda>cn. relation cn = 1) (connectors n))"

text \<open>Lines 691--694 and 703--704: the entropy of a fraction.\<close>

definition entropy :: "real \<Rightarrow> real" where
  "entropy p = (if 0 < p \<and> p < 1 then - (p * ln p + (1 - p) * ln (1 - p)) else 0)"

text \<open>
  Lines 686--710, for a list of fragments (a split).  The logarithm and the divisions
  are those of the reals.  A fragment without connectors makes the first division
  raise \<^verbatim>\<open>ZeroDivisionError\<close>, as does an empty list at line 699.
\<close>

definition segregation_index :: "neuron list \<Rightarrow> py_error + real" where
  "segregation_index x =
     (if list_ex (\<lambda>n. n_connectors n = 0) x \<or> x = [] then Inl ZeroDivisionError
      else
        (let entropy_list = map (\<lambda>n. entropy (real (n_postsynapses n) / real (n_connectors n))) x;
             S = 1 / real (sum_list (map n_connectors x)) *
                   sum_list (map2 (\<lambda>e n. e * real (n_connectors n)) entropy_list x);
             p_norm = real (sum_list (map n_postsynapses x)) / real (sum_list (map n_connectors x))
         in if 0 < p_norm \<and> p_norm < 1 then Inr (1 - S / entropy p_norm) else Inr 0))"

section \<open>Relations and example inputs used in the statements\<close>

text \<open>
  Two entries of a \<^verbatim>\<open>strahler_index\<close> column compare when both are \<^verbatim>\<open>None\<close> or both are
  integers, the first at most the second.
\<close>

definition index_le :: "int option \<Rightarrow> int option \<Rightarrow> bool" where
  "index_le a b =
     (case a of
        None \<Rightarrow> b = None
      | Some v \<Rightarrow> (case b of None \<Rightarrow> False | Some w \<Rightarrow> v \<le> w))"

definition state_le :: "strahler_state \<Rightarrow> strahler_state \<Rightarrow> bool" where
  "state_le s t \<longleftrightarrow>
     nodes_processed s = nodes_processed t \<and>
     new_starting_points s = new_starting_points t \<and>
     (\<forall>n. index_le (si s n) (si t n))"

text \<open>A row with the given id, parent, type and confidence, at the origin.\<close>

definition mk_node :: "int \<Rightarrow> int option \<Rightarrow> node_type \<Rightarrow> int \<Rightarrow> treenode" where
  "mk_node i p t k =
     \<lparr> treenode_id = i, parent_id = p, xyz = (0, 0, 0), confidence = k, type = t,
       strahler_index = None \<rparr>"

text \<open>A root with two end nodes as children.\<close>

definition fork_nodes :: "treenode list" where
  "fork_nodes = [mk_node 1 None Root 5, mk_node 2 (Some 1) End 5, mk_node 3 (Some 1) End 4]"

definition fork_neuron :: neuron where
  "fork_neuron = \<lparr> nodes = fork_nodes, connectors = [], has_strahler = False \<rparr>"

text \<open>
  A root 1 with the single child 2; node 2 forks into the end node 3 and the branch
  node 4, which forks into the end nodes 5 and 6.
\<close>

definition comb_nodes :: "treenode list" where
  "comb_nodes =
     [mk_node 1 None Root 5, mk_node 2 (Some 1) Branch 5, mk_node 3 (Some 2) End 5,
      mk_node 4 (Some 2) Branch 5, mk_node 5 (Some 4) End 5, mk_node 6 (Some 4) End 5]"

definition comb_neuron :: neuron where
  "comb_neuron = \<lparr> nodes = comb_nodes, connectors = [], has_strahler = False \<rparr>"

text \<open>
  Modelled from the spec: \<^verbatim>\<open>graph_utils.distal_to\<close> is not among the sources; a node is
  distal to \<open>b\<close> when it lies in the subtree rooted at \<open>b\<close>, that is, when the walk
  along the parent links meets \<open>b\<close>.  This is one function the parameter \<open>distal_to\<close>
  of \<open>flow_centrality\<close> may be.
\<close>

fun on_path_to_root :: "nat \<Rightarrow> treenode list \<Rightarrow> int \<Rightarrow> int \<Rightarrow> bool" where
  "on_path_to_root k ns a b =
     (a = b \<or>
      (case k of
         0 \<Rightarrow> False
       | Suc k' \<Rightarrow>
           (case loc_parent ns a of
              Inr (Some p) \<Rightarrow> on_path_to_root k' ns p b
            | _ \<Rightarrow> False)))"

definition spec_distal_to :: "neuron \<Rightarrow> int \<Rightarrow> int \<Rightarrow> bool" where
  "spec_distal_to y a b = on_path_to_root (length (nodes y)) (nodes y) a b"

text \<open>
  Modelled from the spec: rerooting reverses the parent links along the path from the
  new root to the old one.  \<open>path_up\<close> is that path, \<open>reversed_parent\<close> the new
  parent of a node, and \<open>spec_core\<close> a neuron class without soma whose \<^verbatim>\<open>reroot\<close> does
  this and brings the types up to date.
\<close>

fun path_up :: "nat \<Rightarrow> treenode list \<Rightarrow> int \<Rightarrow> int list" where
  "path_up 0 ns n = [n]"
| "path_up (Suc k) ns n =
     (case loc_parent ns n of
        Inr (Some p) \<Rightarrow> n # path_up k ns p
      | _ \<Rightarrow> [n])"

definition reversed_parent :: "treenode list \<Rightarrow> int \<Rightarrow> int \<Rightarrow> int option" where
  "reversed_parent ns new_root n =
     (if n = new_root then None
      else
        (case filter (\<lambda>cp. snd cp = n)
                (zip (path_up (length ns) ns new_root) (tl (path_up (length ns) ns new_root))) of
           cp # _ \<Rightarrow> Some (fst cp)
         | [] \<Rightarrow> (case loc_parent ns n of Inr p \<Rightarrow> p | Inl e \<Rightarrow> None)))"

definition rerooted_nodes :: "treenode list \<Rightarrow> int \<Rightarrow> treenode list" where
  "rerooted_nodes ns new_root =
     classify_nodes (map (\<lambda>r. r\<lparr>parent_id := reversed_parent ns new_root (treenode_id r)\<rparr>) ns)"

definition spec_core :: core_ops where
  "spec_core =
     \<lparr> soma = (\<lambda>ns. None),
       reroot_links = (\<lambda>ns new_root n.
         (reversed_parent ns new_root n,
          (case find (\<lambda>r. treenode_id r = n) (rerooted_nodes ns new_root) of
             Some r \<Rightarrow> type r
           | None \<Rightarrow> Slab))) \<rparr>"

text \<open>The same neuron class for a neuron whose soma is treenode 4.\<close>

definition soma_core :: core_ops where
  "soma_core = spec_core\<lparr> soma := (\<lambda>ns. Some 4) \<rparr>"

text \<open>
  The binary tree of the specification: root 1 with the children 2 and 3; 4 and 5 are
  the children of 2, 6 and 7 those of 3.  Presynapses sit at 4 and 6, postsynapses at
  5 and 7.
\<close>

definition binary_neuron :: neuron where
  "binary_neuron =
     \<lparr> nodes = [mk_node 1 None Root 5, mk_node 2 (Some 1) Branch 5, mk_node 3 (Some 1) Branch 5,
                mk_node 4 (Some 2) End 5, mk_node 5 (Some 2) End 5,
                mk_node 6 (Some 3) End 5, mk_node 7 (Some 3) End 5],
       connectors = [\<lparr> connector_id = 11, cn_treenode_id = 4, relation = 0 \<rparr>,
                     \<lparr> connector_id = 12, cn_treenode_id = 5, relation = 1 \<rparr>,
                     \<lparr> connector_id = 13, cn_treenode_id = 6, relation = 0 \<rparr>,
                     \<lparr> connector_id = 14, cn_treenode_id = 7, relation = 1 \<rparr>],
       has_strahler = False \<rparr>"

text \<open>
  The same tree with a third postsynapse, at the branch node 3: three postsynaptic and
  two presynaptic nodes.
\<close>

definition uneven_neuron :: neuron where
  "uneven_neuron =
     binary_neuron\<lparr> connectors :=
       connectors binary_neuron @ [\<lparr> connector_id = 15, cn_treenode_id = 3, relation = 1 \<rparr>] \<rparr>"

text \<open>
  Two neurons of two nodes each on the x axis: A has its root 1 at 0 and the end node 2
  at 100, B its root 3 at 40 and the end node 4 at 99.
\<close>

definition stitch_A :: neuron where
  "stitch_A =
     \<lparr> nodes = [(mk_node 1 None Root 5)\<lparr>xyz := (0, 0, 0)\<rparr>,
                (mk_node 2 (Some 1) End 5)\<lparr>xyz := (100, 0, 0)\<rparr>],
       connectors = [], has_strahler = False \<rparr>"

definition stitch_B :: neuron where
  "stitch_B =
     \<lparr> nodes = [(mk_node 3 None Root 5)\<lparr>xyz := (40, 0, 0)\<rparr>,
                (mk_node 4 (Some 3) End 5)\<lparr>xyz := (99, 0, 0)\<rparr>],
       connectors = [], has_strahler = False \<rparr>"

text \<open>Observations of a result: the \<^verbatim>\<open>strahler_index\<close> column, and the parent links.\<close>

definition strahler_column :: "(py_error + neuron) option \<Rightarrow> (py_error + int option list) option" where
  "strahler_column res = map_option (map_sum id (\<lambda>x. map strahler_index (nodes x))) res"

definition links :: "neuron \<Rightarrow> (int \<times> int option) list" where
  "links x = map (\<lambda>r. (treenode_id r, parent_id r)) (nodes x)"

text \<open>
  The neuron \<open>comb_neuron\<close> with its Strahler indices (standard method), and what
  pruning index 1 returns for it: the nodes 1, 2 and 4, their types brought up to date
  and their Strahler indices invalidated.
\<close>

definition comb_indexed :: neuron where
  "comb_indexed =
     \<lparr> nodes = map2 (\<lambda>r v. r\<lparr>strahler_index := Some v\<rparr>) comb_nodes [2, 2, 1, 2, 1, 1],
       connectors = [], has_strahler = True \<rparr>"

definition comb_pruned :: neuron where
  "comb_pruned =
     \<lparr> nodes = [mk_node 1 None Root 5, mk_node 2 (Some 1) Slab 5, mk_node 4 (Some 2) End 5],
       connectors = [], has_strahler = False \<rparr>"

text \<open>The rows of \<open>comb_indexed\<close> outside \<^verbatim>\<open>range(1, 2)\<close>: the nodes 1, 2 and 4.\<close>

definition comb_kept :: "treenode list" where
  "comb_kept =
     [(mk_node 1 None Root 5)\<lparr>strahler_index := Some 2\<rparr>,
      (mk_node 2 (Some 1) Branch 5)\<lparr>strahler_index := Some 2\<rparr>,
      (mk_node 4 (Some 2) Branch 5)\<lparr>strahler_index := Some 2\<rparr>]"

text \<open>
  A chain: root 1, slab 2, end node 3, with a presynapse and a postsynapse at the end
  node; and the same chain with its Strahler indices.
\<close>

definition chain_neuron :: neuron where
  "chain_neuron =
     \<lparr> nodes = [mk_node 1 None Root 5, mk_node 2 (Some 1) Slab 5, mk_node 3 (Some 2) End 5],
       connectors = [\<lparr> connector_id = 21, cn_treenode_id = 3, relation = 0 \<rparr>,
                     \<lparr> connector_id = 22, cn_treenode_id = 3, relation = 1 \<rparr>],
       has_strahler = False \<rparr>"

definition chain_indexed :: neuron where
  "chain_indexed =
     chain_neuron\<lparr> nodes := map (\<lambda>r. r\<lparr>strahler_index := Some 1\<rparr>) (nodes chain_neuron),
                   has_strahler := True \<rparr>"

text \<open>
  The parent links of a node table as a relation, child to parent, and the nodes below
  a node: those from which the parent links lead to it (the node itself included).
\<close>

definition par :: "treenode list \<Rightarrow> (int \<times> int) set" where
  "par ns = {(m, p). \<exists>r\<in>set ns. treenode_id r = m \<and> parent_id r = Some p}"

definition below :: "treenode list \<Rightarrow> int \<Rightarrow> int set" where
  "below ns n = {m. (m, n) \<in> (par ns)\<^sup>*}"

text \<open>The depth of a node of a well-formed table: the number of links up to its root.\<close>

definition dep :: "treenode list \<Rightarrow> int \<Rightarrow> nat" where
  "dep ns n = the (depth (length ns) ns n)"

text \<open>
  A column of confidences is right on a set of nodes when every row in it that has a
  parent holds the entry of the parent times the factor of its own confidence value.
\<close>

definition right_on :: "real list \<Rightarrow> treenode list \<Rightarrow> (int \<Rightarrow> real option) \<Rightarrow> int set \<Rightarrow> bool" where
  "right_on confidences ns ac D \<longleftrightarrow>
     (\<forall>r p. r \<in> set ns \<and> treenode_id r \<in> D \<and> parent_id r = Some p \<longrightarrow>
        (\<exists>f v. py_index confidences (5 - confidence r) = Inr f \<and> ac p = Some v \<and>
               ac (treenode_id r) = Some (v * f)))"

text \<open>
  The segregation index in the words of the specification: the entropy of a fraction is 0
  when the fraction is 0 or 1, the average is weighted by the numbers of connectors, and
  the index is 0 when the pooled fraction is 0 or 1.
\<close>

definition spec_entropy :: "real \<Rightarrow> real" where
  "spec_entropy p = (if p = 0 \<or> p = 1 then 0 else - (p * ln p + (1 - p) * ln (1 - p)))"

definition fraction_post :: "neuron \<Rightarrow> real" where
  "fraction_post n = real (n_postsynapses n) / real (n_connectors n)"

definition spec_S_avg :: "neuron list \<Rightarrow> real" where
  "spec_S_avg x =
     (\<Sum>n\<leftarrow>x. spec_entropy (fraction_post n) * real (n_connectors n)) /
     (\<Sum>n\<leftarrow>x. real (n_connectors n))"

definition spec_p_norm :: "neuron list \<Rightarrow> real" where
  "spec_p_norm x = (\<Sum>n\<leftarrow>x. real (n_postsynapses n)) / (\<Sum>n\<leftarrow>x. real (n_connectors n))"

definition spec_segregation :: "neuron list \<Rightarrow> real" where
  "spec_segregation x =
     (if spec_p_norm x = 0 \<or> spec_p_norm x = 1 then 0
      else 1 - spec_S_avg x / spec_entropy (spec_p_norm x))"

text \<open>
  A split in three as \<^verbatim>\<open>split_axon_dendrite\<close> returns it: a primary neurite without
  connectors, an axon with one postsynapse and three presynapses, and a dendrite with
  three postsynapses and one presynapse.
\<close>

definition primary_neurite :: neuron where
  "primary_neurite = \<lparr> nodes = [mk_node 1 None Root 5], connectors = [], has_strahler = False \<rparr>"

definition mixed_axon :: neuron where
  "mixed_axon =
     \<lparr> nodes = [mk_node 2 None Root 5],
       connectors = [\<lparr> connector_id = 41, cn_treenode_id = 2, relation = 1 \<rparr>,
                     \<lparr> connector_id = 42, cn_treenode_id = 2, relation = 0 \<rparr>,
                     \<lparr> connector_id = 43, cn_treenode_id = 2, relation = 0 \<rparr>,
                     \<lparr> connector_id = 44, cn_treenode_id = 2, relation = 0 \<rparr>],
       has_strahler = False \<rparr>"

definition mixed_dendrite :: neuron where
  "mixed_dendrite =
     \<lparr> nodes = [mk_node 3 None Root 5],
       connectors = [\<lparr> connector_id = 45, cn_treenode_id = 3, relation = 1 \<rparr>,
                     \<lparr> connector_id = 46, cn_treenode_id = 3, relation = 1 \<rparr>,
                     \<lparr> connector_id = 47, cn_treenode_id = 3, relation = 1 \<rparr>,
                     \<lparr> connector_id = 48, cn_treenode_id = 3, relation = 0 \<rparr>],
       has_strahler = False \<rparr>"

text \<open>
  What the proof of the propagation shows of one call of \<open>walk_to_leafs\<close> with the given
  fuel: a call on a node whose parent holds \<open>this_confidence\<close> changes the column
  only below the node and leaves it right there.
\<close>

definition walk_ok :: "nat \<Rightarrow> real list \<Rightarrow> treenode list \<Rightarrow> bool" where
  "walk_ok fuel cs ns \<longleftrightarrow>
     (\<forall>ac n c ac' p. walk_to_leafs fuel cs ns ac n c = Some (Inr ac') \<and> (n, p) \<in> par ns \<and>
        ac p = Some c \<longrightarrow>
        (\<forall>m. m \<notin> below ns n \<longrightarrow> ac' m = ac m) \<and> right_on cs ns ac' (below ns n))"

text \<open>A chain with edges of confidence 4 and 3: root 1, slab 2, end node 3.\<close>

definition conf_nodes :: "treenode list" where
  "conf_nodes = [mk_node 1 None Root 5, mk_node 2 (Some 1) Slab 4, mk_node 3 (Some 2) End 3]"

text \<open>
  The \<^verbatim>\<open>type\<close> column is consistent this far: a node of type \<^verbatim>\<open>'end'\<close> has no children.
\<close>

definition ends_childless :: "treenode list \<Rightarrow> bool" where
  "ends_childless ns \<longleftrightarrow>
     list_all (\<lambda>r. type r = End \<longrightarrow> generate_list_of_childs ns (treenode_id r) = []) ns"

text \<open>
  Used in the proof that the engine returns: every processed node has an index, and a
  starting point is a row of depth below the bound whose children are all processed.
\<close>

definition ready_state :: "treenode list \<Rightarrow> strahler_state \<Rightarrow> bool" where
  "ready_state ns s \<longleftrightarrow> (\<forall>n\<in>set (nodes_processed s). si s n \<noteq> None)"

definition startable :: "treenode list \<Rightarrow> int list \<Rightarrow> nat \<Rightarrow> int \<Rightarrow> bool" where
  "startable ns processed k en \<longleftrightarrow>
     (\<exists>r\<in>set ns. treenode_id r = en) \<and> dep ns en < k \<and>
     list_all (\<lambda>c. c \<in> set processed) (generate_list_of_childs ns en)"

section \<open>Rows, parents and depth\<close>

lemma find_row:
  assumes "distinct (map treenode_id ns)" "r \<in> set ns"
  shows "find (\<lambda>q. treenode_id q = treenode_id r) ns = Some r"
  using assms by (induction ns) (auto simp: rev_image_eqI)

lemma find_row_id:
  "find (\<lambda>q. treenode_id q = n) ns = Some r \<Longrightarrow> r \<in> set ns \<and> treenode_id r = n"
  by (induction ns) (auto split: if_splits)

lemma childs_iff: "c \<in> set (generate_list_of_childs ns n) \<longleftrightarrow> (c, n) \<in> par ns"
  by (auto simp: generate_list_of_childs_def par_def)

lemma distinct_childs:
  "distinct (map treenode_id ns) \<Longrightarrow> distinct (generate_list_of_childs ns n)"
  by (simp add: generate_list_of_childs_def distinct_map_filter)

lemma single_valued_par:
  assumes "distinct (map treenode_id ns)"
  shows "single_valued (par ns)"
proof (rule single_valuedI)
  fix m p q assume "(m, p) \<in> par ns" "(m, q) \<in> par ns"
  then obtain r s where r: "r \<in> set ns" "treenode_id r = m" "parent_id r = Some p"
    and s: "s \<in> set ns" "treenode_id s = m" "parent_id s = Some q"
    by (auto simp: par_def)
  from assms r(1,2) s(1,2) have "r = s" by (auto simp: distinct_map inj_on_def)
  then show "p = q" using r s by simp
qed

lemma depth_less: "depth k ns n = Some d \<Longrightarrow> d < k"
proof (induction k arbitrary: n d)
  case 0 then show ?case by simp
next
  case (Suc k) then show ?case
    by (fastforce split: option.splits)
qed

lemma depth_mono: "depth k ns n = Some d \<Longrightarrow> k \<le> k' \<Longrightarrow> depth k' ns n = Some d"
proof (induction k arbitrary: n d k')
  case 0 then show ?case by simp
next
  case (Suc k)
  then obtain j where j: "k' = Suc j" "k \<le> j" by (cases k') auto
  show ?case using Suc.prems(1) Suc.IH[OF _ j(2)] j(1)
    by (auto split: option.splits)
qed

lemma depth_row: "depth k ns n = Some d \<Longrightarrow> \<exists>r\<in>set ns. treenode_id r = n"
  by (cases k) (auto split: option.splits dest: find_row_id)

text \<open>In a well-formed table a link leads to a row, one level up.\<close>

lemma par_depth:
  assumes "well_formed ns" "(m, p) \<in> par ns"
  shows "\<exists>d. depth (length ns) ns p = Some d \<and> depth (length ns) ns m = Some (Suc d)"
proof -
  from assms(2) obtain r where r: "r \<in> set ns" "treenode_id r = m" "parent_id r = Some p"
    by (auto simp: par_def)
  from assms(1) have dist: "distinct (map treenode_id ns)" by (simp add: well_formed_def)
  from assms(1) r obtain dm where dm: "depth (length ns) ns m = Some dm"
    by (auto simp: well_formed_def list_all_iff)
  obtain k where k: "length ns = Suc k" using r(1) by (cases ns) auto
  have "find (\<lambda>q. treenode_id q = m) ns = Some r" using find_row[OF dist r(1)] r(2) by simp
  with dm k r(3) obtain d where d: "depth k ns p = Some d" "dm = Suc d"
    by auto
  from depth_mono[OF d(1), of "length ns"] k have "depth (length ns) ns p = Some d" by simp
  then show ?thesis using dm d(2) by simp
qed

lemma par_dep: "well_formed ns \<Longrightarrow> (m, p) \<in> par ns \<Longrightarrow> dep ns m = Suc (dep ns p)"
  using par_depth[of ns m p] by (auto simp: dep_def)

lemma par_row: "well_formed ns \<Longrightarrow> (m, p) \<in> par ns \<Longrightarrow> \<exists>r\<in>set ns. treenode_id r = p"
  using par_depth[of ns m p] depth_row by blast

lemma below_dep: "well_formed ns \<Longrightarrow> m \<in> below ns n \<Longrightarrow> dep ns n \<le> dep ns m"
proof -
  assume wf: "well_formed ns" and "m \<in> below ns n"
  then have "(m, n) \<in> (par ns)\<^sup>*" by (simp add: below_def)
  then show ?thesis
    by (induction rule: rtrancl_induct) (auto dest: par_dep[OF wf])
qed

lemma below_self: "n \<in> below ns n"
  by (simp add: below_def)

lemma below_child: "(c, n) \<in> par ns \<Longrightarrow> below ns c \<subseteq> below ns n"
  by (auto simp: below_def)

lemma below_cases:
  assumes "distinct (map treenode_id ns)" "m \<in> below ns n" "m \<noteq> n"
  shows "\<exists>c. (c, n) \<in> par ns \<and> m \<in> below ns c"
  using assms(2,3) unfolding below_def mem_Collect_eq
  by (induction rule: rtrancl_induct) (auto intro: rtrancl_trans)

lemma parent_below:
  assumes "distinct (map treenode_id ns)" "m \<in> below ns n" "m \<noteq> n" "(m, q) \<in> par ns"
  shows "q \<in> below ns n"
proof -
  from assms(2,3) have "(m, n) \<in> (par ns)\<^sup>+" by (simp add: below_def rtrancl_eq_or_trancl)
  then obtain q' where "(m, q') \<in> par ns" "(q', n) \<in> (par ns)\<^sup>*"
    by (auto dest: tranclD)
  moreover have "q' = q" using single_valued_par[OF assms(1)] calculation(1) assms(4)
    by (auto dest: single_valuedD)
  ultimately show ?thesis by (simp add: below_def)
qed

lemma below_disjoint:
  assumes wf: "well_formed ns" and "a \<noteq> b" "dep ns a = dep ns b"
  shows "below ns a \<inter> below ns b = {}"
proof (rule ccontr)
  assume "below ns a \<inter> below ns b \<noteq> {}"
  then obtain m where m: "(m, a) \<in> (par ns)\<^sup>*" "(m, b) \<in> (par ns)\<^sup>*" by (auto simp: below_def)
  from wf have "single_valued (par ns)" by (simp add: well_formed_def single_valued_par)
  from single_valued_confluent[OF this m] have "a \<in> below ns b \<or> b \<in> below ns a"
    by (auto simp: below_def)
  moreover have "a \<notin> below ns b"
  proof
    assume "a \<in> below ns b"
    then have "(a, b) \<in> (par ns)\<^sup>+" using assms(2) by (simp add: below_def rtrancl_eq_or_trancl)
    then obtain q where q: "(a, q) \<in> par ns" "(q, b) \<in> (par ns)\<^sup>*" by (auto dest: tranclD)
    then have "dep ns b \<le> dep ns q" using below_dep[OF wf, of q b] by (simp add: below_def)
    then show False using par_dep[OF wf q(1)] assms(3) by simp
  qed
  moreover have "b \<notin> below ns a"
  proof
    assume "b \<in> below ns a"
    then have "(b, a) \<in> (par ns)\<^sup>+" using assms(2) by (simp add: below_def rtrancl_eq_or_trancl)
    then obtain q where q: "(b, q) \<in> par ns" "(q, a) \<in> (par ns)\<^sup>*" by (auto dest: tranclD)
    then have "dep ns a \<le> dep ns q" using below_dep[OF wf, of q a] by (simp add: below_def)
    then show False using par_dep[OF wf q(1)] assms(3) by simp
  qed
  ultimately show False by simp
qed

lemma row_dep_less:
  assumes "well_formed ns" "r \<in> set ns"
  shows "dep ns (treenode_id r) < length ns"
proof -
  from assms obtain d where "depth (length ns) ns (treenode_id r) = Some d"
    by (auto simp: well_formed_def list_all_iff)
  then show ?thesis using depth_less by (simp add: dep_def)
qed

lemma loc_parent_row:
  "distinct (map treenode_id ns) \<Longrightarrow> r \<in> set ns \<Longrightarrow>
   loc_parent ns (treenode_id r) = Inr (parent_id r)"
  by (simp add: loc_parent_def find_row)

section \<open>The Strahler engine\<close>

lemma index_le_None_iff: "list_all2 index_le ps qs \<Longrightarrow> None \<in> set ps \<longleftrightarrow> None \<in> set qs"
  by (induction rule: list_all2_induct) (auto simp: index_le_def split: option.splits)

lemma index_le_the:
  "list_all2 index_le ps qs \<Longrightarrow> None \<notin> set ps \<Longrightarrow> list_all2 (\<le>) (map the ps) (map the qs)"
  by (induction rule: list_all2_induct) (auto simp: index_le_def split: option.splits)

lemma Max_mono_list:
  assumes "list_all2 (\<le>) vs ws" "vs \<noteq> []"
  shows "Max (set vs) \<le> Max (set (ws :: int list))"
proof -
  have "\<forall>v \<in> set vs. v \<le> Max (set ws)"
  proof
    fix v assume "v \<in> set vs"
    then obtain i where i: "i < length vs" "vs ! i = v" by (auto simp: in_set_conv_nth)
    then have "v \<le> ws ! i" using assms(1) by (auto simp: list_all2_conv_all_nth)
    moreover have "ws ! i \<in> set ws" using i assms(1) by (auto simp: list_all2_lengthD)
    then have "ws ! i \<le> Max (set ws)" by simp
    ultimately show "v \<le> Max (set ws)" by linarith
  qed
  then show ?thesis using assms(2) by simp
qed

lemma this_branch_index_mono:
  assumes "list_all2 index_le ps qs"
  shows "rel_sum (=) index_le (this_branch_index Standard ps) (this_branch_index Greedy qs)"
proof -
  have len: "length ps = length qs" using assms by (rule list_all2_lengthD)
  consider "length ps = 0" | "length ps = 1" | "2 \<le> length ps" by linarith
  then show ?thesis
  proof cases
    case 1 then show ?thesis using len by (simp add: this_branch_index_def index_le_def)
  next
    case 2
    then have "index_le (ps ! 0) (qs ! 0)" using assms by (simp add: list_all2_conv_all_nth)
    then show ?thesis using 2 len by (simp add: this_branch_index_def)
  next
    case 3
    show ?thesis
    proof (cases "None \<in> set ps")
      case True
      then have "None \<in> set qs" using index_le_None_iff[OF assms] by simp
      then show ?thesis using True 3 len by (auto simp: this_branch_index_def)
    next
      case False
      then have nq: "None \<notin> set qs" using index_le_None_iff[OF assms] by simp
      have ne: "map the ps \<noteq> []" using 3 by auto
      have "Max (set (map the ps)) \<le> Max (set (map the qs))"
        using Max_mono_list[OF index_le_the[OF assms False] ne] .
      then show ?thesis using False nq 3 len
        by (simp add: this_branch_index_def Let_def index_le_def)
    qed
  qed
qed

lemma process_starting_point_mono:
  assumes "state_le s t"
  shows "rel_option (rel_sum (=) state_le)
           (process_starting_point fuel Standard ns bn s en)
           (process_starting_point fuel Greedy ns bn t en)"
proof -
  have "list_all2 index_le (map (si s) (generate_list_of_childs ns en))
          (map (si t) (generate_list_of_childs ns en))"
    using assms by (simp add: state_le_def list_all2_conv_all_nth)
  from this_branch_index_mono[OF this]
  show ?thesis using assms
    by (auto simp: process_starting_point_def state_le_def Let_def rel_sum.simps
             split: sum.splits option.splits prod.splits)
qed

lemma process_starting_points_mono:
  "state_le s t \<Longrightarrow>
   rel_option (rel_sum (=) state_le)
     (process_starting_points fuel Standard ns bn s ens)
     (process_starting_points fuel Greedy ns bn t ens)"
proof (induction ens arbitrary: s t)
  case Nil then show ?case by simp
next
  case (Cons en ens)
  from process_starting_point_mono[OF Cons.prems, of fuel ns bn en]
  show ?case using Cons.IH
    by (auto simp: rel_sum.simps option_rel_Some1 option_rel_Some2
             split: option.splits sum.splits)
qed

lemma strahler_rounds_mono:
  "\<forall>n. index_le (f n) (g n) \<Longrightarrow>
   rel_option (rel_sum (=) (\<lambda>f g. \<forall>n. index_le (f n) (g n)))
     (strahler_rounds rounds fuel Standard ns bn f processed sps)
     (strahler_rounds rounds fuel Greedy ns bn g processed sps)"
proof (induction rounds arbitrary: f g processed sps)
  case 0 then show ?case by (cases sps) auto
next
  case (Suc rounds)
  show ?case
  proof (cases sps)
    case Nil then show ?thesis using Suc.prems by simp
  next
    case (Cons sp sps')
    have "state_le \<lparr> si = f, nodes_processed = processed, new_starting_points = [] \<rparr>
                   \<lparr> si = g, nodes_processed = processed, new_starting_points = [] \<rparr>"
      using Suc.prems by (simp add: state_le_def)
    from process_starting_points_mono[OF this, of fuel ns bn "sp # sps'"]
    show ?thesis using Cons Suc.IH
      by (auto simp: rel_sum.simps option_rel_Some1 option_rel_Some2 state_le_def
               split: option.splits sum.splits)
  qed
qed

lemma strahler_dict_mono:
  "rel_option (rel_sum (=) (\<lambda>f g. \<forall>n. index_le (f n) (g n)))
     (strahler_dict fuel Standard ns) (strahler_dict fuel Greedy ns)"
  unfolding strahler_dict_def by (rule strahler_rounds_mono) (simp add: index_le_def)

text \<open>
  The two methods stop together: with the same fuel, the greedy run returns, raises or
  runs out of fuel exactly when the standard run does.
\<close>

lemma strahler_methods_stop_together:
  "(strahler_index_fn fuel Standard x = None \<longleftrightarrow> strahler_index_fn fuel Greedy x = None) \<and>
   (strahler_index_fn fuel Standard x = Some (Inl e) \<longleftrightarrow>
      strahler_index_fn fuel Greedy x = Some (Inl e))"
  using strahler_dict_mono[of fuel "nodes x"]
  by (auto simp: strahler_index_fn_def rel_sum.simps option_rel_Some1 option_rel_Some2
           split: option.splits sum.splits)

text \<open>
  C6.  Whenever the standard method returns a neuron, the greedy method returns one on
  the same tree, with the same rows in the same order, and the Strahler index of every
  row under the greedy method is at least its index under the standard method (rows
  that the engine leaves at \<^verbatim>\<open>None\<close> are left so by both).
\<close>

theorem strahler_greedy_ge_standard:
  assumes "strahler_index_fn fuel Standard x = Some (Inr xs)"
  shows "\<exists>xg. strahler_index_fn fuel Greedy x = Some (Inr xg) \<and>
              list_all2 (\<lambda>r g. treenode_id g = treenode_id r \<and>
                               index_le (strahler_index r) (strahler_index g))
                (nodes xs) (nodes xg)"
proof -
  from assms obtain f where f: "strahler_dict fuel Standard (nodes x) = Some (Inr f)"
    and xs: "xs = x\<lparr> nodes := map (\<lambda>r. r\<lparr>strahler_index := f (treenode_id r)\<rparr>) (nodes x),
                     has_strahler := True \<rparr>"
    by (auto simp: strahler_index_fn_def split: option.splits sum.splits)
  from strahler_dict_mono[of fuel "nodes x"] f
  obtain g where g: "strahler_dict fuel Greedy (nodes x) = Some (Inr g)"
    and le: "\<forall>n. index_le (f n) (g n)"
    by (auto simp: option_rel_Some1 rel_sum.simps)
  have "strahler_index_fn fuel Greedy x =
          Some (Inr (x\<lparr> nodes := map (\<lambda>r. r\<lparr>strahler_index := g (treenode_id r)\<rparr>) (nodes x),
                        has_strahler := True \<rparr>))"
    using g by (simp add: strahler_index_fn_def)
  moreover have "list_all2 (\<lambda>r g. treenode_id g = treenode_id r \<and>
                               index_le (strahler_index r) (strahler_index g))
      (map (\<lambda>r. r\<lparr>strahler_index := f (treenode_id r)\<rparr>) (nodes x))
      (map (\<lambda>r. r\<lparr>strahler_index := g (treenode_id r)\<rparr>) (nodes x))"
    using le by (simp add: list_all2_conv_all_nth)
  ultimately show ?thesis using xs by simp
qed

lemma comb_standard:
  "strahler_index_fn 6 Standard comb_neuron =
     Some (Inr \<lparr> nodes = map2 (\<lambda>r v. r\<lparr>strahler_index := Some v\<rparr>) comb_nodes [2, 2, 1, 2, 1, 1],
                 connectors = [], has_strahler = True \<rparr>)"
  by code_simp

theorem strahler_greedy_ge_standard_witness:
  "strahler_index_fn 6 Standard comb_neuron =
     Some (Inr \<lparr> nodes = map2 (\<lambda>r v. r\<lparr>strahler_index := Some v\<rparr>) comb_nodes [2, 2, 1, 2, 1, 1],
                 connectors = [], has_strahler = True \<rparr>) \<and>
   (\<exists>xg. strahler_index_fn 6 Greedy comb_neuron = Some (Inr xg) \<and>
         list_all2 (\<lambda>r g. treenode_id g = treenode_id r \<and>
                          index_le (strahler_index r) (strahler_index g))
           (map2 (\<lambda>r v. r\<lparr>strahler_index := Some v\<rparr>) comb_nodes [2, 2, 1, 2, 1, 1]) (nodes xg))"
  using strahler_greedy_ge_standard[OF comb_standard] comb_standard by simp

text \<open>The walk down the spine returns when the fuel covers the depth of its start.\<close>

lemma walk_spine_returns:
  assumes wf: "well_formed ns"
  shows "(\<And>q. p = Some q \<Longrightarrow> (\<exists>r\<in>set ns. treenode_id r = q) \<and> dep ns q < fuel) \<Longrightarrow>
         \<exists>spine' pn. walk_spine fuel ns bn p spine = Some (spine', pn) \<and>
            (\<forall>P. pn = Some P \<longrightarrow> P \<in> set bn \<and> (\<forall>q. p = Some q \<longrightarrow> dep ns P \<le> dep ns q))"
proof (induction fuel arbitrary: p spine)
  case 0
  then show ?case by (cases p) auto
next
  case (Suc fuel)
  from wf have dist: "distinct (map treenode_id ns)" by (simp add: well_formed_def)
  show ?case
  proof (cases p)
    case None
    then show ?thesis by simp
  next
    case (Some q)
    with Suc.prems obtain r where r: "r \<in> set ns" "treenode_id r = q" and dq: "dep ns q < Suc fuel"
      by blast
    show ?thesis
    proof (cases "q \<in> set bn")
      case True
      then show ?thesis using Some by simp
    next
      case False
      have lp: "loc_parent ns q = Inr (parent_id r)" using loc_parent_row[OF dist r(1)] r(2) by simp
      have pre: "\<And>q'. parent_id r = Some q' \<Longrightarrow> (\<exists>r\<in>set ns. treenode_id r = q') \<and> dep ns q' < fuel"
      proof -
        fix q' assume "parent_id r = Some q'"
        then have "(q, q') \<in> par ns" using r by (auto simp: par_def)
        then show "(\<exists>r\<in>set ns. treenode_id r = q') \<and> dep ns q' < fuel"
          using par_row[OF wf] par_dep[OF wf] dq by fastforce
      qed
      from Suc.IH[of "parent_id r" "spine @ [q]", OF pre] obtain spine' pn where
        w: "walk_spine fuel ns bn (parent_id r) (spine @ [q]) = Some (spine', pn)"
        and b: "\<forall>P. pn = Some P \<longrightarrow> P \<in> set bn \<and> (\<forall>q'. parent_id r = Some q' \<longrightarrow> dep ns P \<le> dep ns q')"
        by blast
      have "\<forall>P. pn = Some P \<longrightarrow> P \<in> set bn \<and> dep ns P \<le> dep ns q"
      proof (intro allI impI)
        fix P assume P: "pn = Some P"
        show "P \<in> set bn \<and> dep ns P \<le> dep ns q"
        proof (cases "parent_id r")
          case None
          then have "pn = None" using w by simp
          then show ?thesis using P by simp
        next
          case (Some q')
          then have "(q, q') \<in> par ns" using r by (auto simp: par_def)
          then show ?thesis using b P Some par_dep[OF wf] by fastforce
        qed
      qed
      then show ?thesis using Some False w lp by simp
    qed
  qed
qed

lemma this_branch_index_Some:
  assumes "None \<notin> set ps"
  shows "\<exists>v. this_branch_index m ps = Inr (Some v)"
proof -
  consider "length ps = 0" | "length ps = 1" | "2 \<le> length ps" by linarith
  then show ?thesis
  proof cases
    case 1 then show ?thesis by (simp add: this_branch_index_def)
  next
    case 2
    then obtain a where "ps = [a]" by (cases ps) auto
    then show ?thesis using assms by (cases a) (auto simp: this_branch_index_def)
  next
    case 3 then show ?thesis using assms by (auto simp: this_branch_index_def Let_def)
  qed
qed

lemma process_starting_point_returns:
  assumes wf: "well_formed ns"
    and bn: "set bn \<subseteq> treenode_id ` set ns"
    and rs: "ready_state ns s"
    and st: "startable ns (nodes_processed s) (Suc k) en" and k: "k \<le> fuel"
  shows "\<exists>s'. process_starting_point fuel m ns bn s en = Some (Inr s') \<and> ready_state ns s' \<and>
           set (nodes_processed s) \<subseteq> set (nodes_processed s') \<and>
           (\<exists>ready. new_starting_points s' = new_starting_points s @ ready \<and>
              (\<forall>P\<in>set ready. startable ns (nodes_processed s') k P))"
proof -
  from wf have dist: "distinct (map treenode_id ns)" by (simp add: well_formed_def)
  from st obtain r where r: "r \<in> set ns" "treenode_id r = en" and den: "dep ns en < Suc k"
    and ch: "list_all (\<lambda>c. c \<in> set (nodes_processed s)) (generate_list_of_childs ns en)"
    by (auto simp: startable_def)
  have "None \<notin> set (map (si s) (generate_list_of_childs ns en))"
    using ch rs by (force simp: ready_state_def list_all_iff)
  from this_branch_index_Some[OF this] obtain v where
    v: "this_branch_index m (map (si s) (generate_list_of_childs ns en)) = Inr (Some v)" by blast
  have lp: "loc_parent ns en = Inr (parent_id r)" using loc_parent_row[OF dist r(1)] r(2) by simp
  have pre: "\<And>q. parent_id r = Some q \<Longrightarrow> (\<exists>r\<in>set ns. treenode_id r = q) \<and> dep ns q < fuel"
  proof -
    fix q assume "parent_id r = Some q"
    then have "(en, q) \<in> par ns" using r by (auto simp: par_def)
    then show "(\<exists>r\<in>set ns. treenode_id r = q) \<and> dep ns q < fuel"
      using par_row[OF wf] par_dep[OF wf] den k by fastforce
  qed
  from walk_spine_returns[OF wf pre, of "parent_id r" bn "[en]"] obtain spine pn where
    w: "walk_spine fuel ns bn (parent_id r) [en] = Some (spine, pn)"
    and b: "\<forall>P. pn = Some P \<longrightarrow> P \<in> set bn \<and> (\<forall>q. parent_id r = Some q \<longrightarrow> dep ns P \<le> dep ns q)"
    by blast
  let ?processed = "nodes_processed s @ spine"
  define ready where "ready = (case pn of None \<Rightarrow> []
      | Some p \<Rightarrow> if list_all (\<lambda>c. c \<in> set ?processed) (generate_list_of_childs ns p) then [p] else [])"
  define s' where "s' = \<lparr> si = (\<lambda>n. if n \<in> set spine then Some v else si s n),
      nodes_processed = ?processed, new_starting_points = new_starting_points s @ ready \<rparr>"
  have res: "process_starting_point fuel m ns bn s en = Some (Inr s')"
    by (simp add: process_starting_point_def v lp w s'_def ready_def Let_def)
  have "ready_state ns s'"
    using rs by (auto simp: ready_state_def s'_def)
  moreover have "\<forall>P\<in>set ready. startable ns (nodes_processed s') k P"
  proof
    fix P assume P: "P \<in> set ready"
    then have pn: "pn = Some P" and all: "list_all (\<lambda>c. c \<in> set ?processed) (generate_list_of_childs ns P)"
      by (auto simp: ready_def split: option.splits if_splits)
    from b pn have Pbn: "P \<in> set bn" and le: "\<forall>q. parent_id r = Some q \<longrightarrow> dep ns P \<le> dep ns q" by auto
    from pn w obtain q where q: "parent_id r = Some q" by (cases "parent_id r") auto
    then have "(en, q) \<in> par ns" using r by (auto simp: par_def)
    then have "dep ns P < dep ns en" using le q par_dep[OF wf] by fastforce
    then have "dep ns P < k" using den by simp
    then show "startable ns (nodes_processed s') k P"
      using Pbn bn all by (auto simp: startable_def s'_def)
  qed
  ultimately show ?thesis using res by (auto simp: s'_def)
qed

lemma startable_mono:
  "startable ns processed k en \<Longrightarrow> set processed \<subseteq> set processed' \<Longrightarrow> startable ns processed' k en"
  by (auto simp: startable_def list_all_iff)

lemma process_starting_points_returns:
  assumes wf: "well_formed ns" and bn: "set bn \<subseteq> treenode_id ` set ns" and k: "k \<le> fuel"
  shows "ready_state ns s \<Longrightarrow> \<forall>en\<in>set ens. startable ns (nodes_processed s) (Suc k) en \<Longrightarrow>
         \<forall>P\<in>set (new_starting_points s). startable ns (nodes_processed s) k P \<Longrightarrow>
         \<exists>s'. process_starting_points fuel m ns bn s ens = Some (Inr s') \<and> ready_state ns s' \<and>
              (\<forall>P\<in>set (new_starting_points s'). startable ns (nodes_processed s') k P)"
proof (induction ens arbitrary: s)
  case Nil
  then show ?case by simp
next
  case (Cons en ens)
  from Cons.prems(2) have "startable ns (nodes_processed s) (Suc k) en" by simp
  from process_starting_point_returns[OF wf bn Cons.prems(1) this k, of m] obtain s1 ready where
    s1: "process_starting_point fuel m ns bn s en = Some (Inr s1)" "ready_state ns s1"
      "set (nodes_processed s) \<subseteq> set (nodes_processed s1)"
      "new_starting_points s1 = new_starting_points s @ ready"
      "\<forall>P\<in>set ready. startable ns (nodes_processed s1) k P"
    by blast
  have a: "\<forall>en\<in>set ens. startable ns (nodes_processed s1) (Suc k) en"
    using Cons.prems(2) s1(3) startable_mono by auto
  have b: "\<forall>P\<in>set (new_starting_points s1). startable ns (nodes_processed s1) k P"
    using Cons.prems(3) s1(3,4,5) startable_mono by auto
  from Cons.IH[OF s1(2) a b] show ?case using s1(1) by simp
qed

lemma strahler_rounds_returns:
  assumes wf: "well_formed ns" and bn: "set bn \<subseteq> treenode_id ` set ns"
  shows "rounds \<le> fuel \<Longrightarrow> \<forall>n\<in>set processed. idx n \<noteq> None \<Longrightarrow>
         \<forall>en\<in>set sps. startable ns processed rounds en \<Longrightarrow>
         \<exists>res. strahler_rounds rounds fuel m ns bn idx processed sps = Some (Inr res)"
proof (induction rounds arbitrary: idx processed sps)
  case 0
  then show ?case by (cases sps) (auto simp: startable_def)
next
  case (Suc rounds)
  show ?case
  proof (cases sps)
    case Nil
    then show ?thesis by simp
  next
    case (Cons sp sps')
    let ?s = "\<lparr> si = idx, nodes_processed = processed, new_starting_points = [] \<rparr>"
    have k: "rounds \<le> fuel" using Suc.prems(1) by simp
    have rs: "ready_state ns ?s" using Suc.prems(2) by (simp add: ready_state_def)
    from process_starting_points_returns[OF wf bn k rs, of sps m] Suc.prems(3)
    obtain s' where s': "process_starting_points fuel m ns bn ?s sps = Some (Inr s')"
      "ready_state ns s'" "\<forall>P\<in>set (new_starting_points s'). startable ns (nodes_processed s') rounds P"
      by auto
    from Suc.IH[OF k, of "nodes_processed s'" "si s'" "new_starting_points s'"] s'(2,3)
    obtain res where
      "strahler_rounds rounds fuel m ns bn (si s') (nodes_processed s') (new_starting_points s') = Some (Inr res)"
      by (auto simp: ready_state_def)
    then show ?thesis using s'(1) Cons by simp
  qed
qed

text \<open>
  On a table that satisfies the tree invariant and whose end nodes have no children, the
  engine returns a dictionary, with either method, as soon as the fuel covers the rows.
\<close>

lemma strahler_dict_returns:
  assumes "well_formed ns" "ends_childless ns" "length ns \<le> fuel"
  shows "\<exists>idx. strahler_dict fuel m ns = Some (Inr idx)"
  unfolding strahler_dict_def
proof (rule strahler_rounds_returns[OF assms(1)])
  show "set (map treenode_id (filter (\<lambda>r. type r = Branch) ns)) \<subseteq> treenode_id ` set ns" by auto
  show "fuel \<le> fuel" by simp
  show "\<forall>n\<in>set []. (\<lambda>n. None :: int option) n \<noteq> None" by simp
  show "\<forall>en\<in>set (map treenode_id (filter (\<lambda>r. type r = End) ns)). startable ns [] fuel en"
  proof
    fix en assume "en \<in> set (map treenode_id (filter (\<lambda>r. type r = End) ns))"
    then obtain r where r: "r \<in> set ns" "type r = End" "treenode_id r = en" by auto
    then have "generate_list_of_childs ns en = []"
      using assms(2) by (auto simp: ends_childless_def list_all_iff)
    then show "startable ns [] fuel en"
      using r row_dep_less[OF assms(1) r(1)] assms(3) by (auto simp: startable_def)
  qed
qed

lemma strahler_index_fn_returns:
  assumes "well_formed (nodes x)" "ends_childless (nodes x)" "length (nodes x) \<le> fuel"
  shows "\<exists>y. strahler_index_fn fuel m x = Some (Inr y)"
  using strahler_dict_returns[OF assms, of m] by (auto simp: strahler_index_fn_def)

text \<open>
  What lines 348--359 compute for a starting point, case by case, and that the
  starting point receives this value.
\<close>

lemma this_branch_index_cases:
  "this_branch_index method [] = Inr (Some 1)"
  "this_branch_index method [v] = Inr v"
  "2 \<le> length vs \<Longrightarrow>
     this_branch_index method (map Some vs) =
       Inr (Some (if 2 \<le> count_list vs (Max (set vs)) \<or> method = Greedy
                  then Max (set vs) + 1 else Max (set vs)))"
  by (auto simp: this_branch_index_def Let_def comp_def)

lemma walk_spine_keeps:
  "walk_spine fuel ns bn p spine = Some (spine', q) \<Longrightarrow> set spine \<subseteq> set spine'"
proof (induction fuel arbitrary: p spine)
  case 0
  then show ?case by (cases p) (auto split: if_splits)
next
  case (Suc fuel)
  show ?case
  proof (cases p)
    case None
    then show ?thesis using Suc.prems by simp
  next
    case (Some a)
    show ?thesis
    proof (cases "a \<in> set bn")
      case True
      then show ?thesis using Suc.prems Some by simp
    next
      case False
      then have "walk_spine fuel ns bn (case loc_parent ns a of Inl e \<Rightarrow> None | Inr q \<Rightarrow> q)
                   (spine @ [a]) = Some (spine', q)"
        using Suc.prems Some by simp
      from Suc.IH[OF this] show ?thesis by auto
    qed
  qed
qed

lemma starting_point_index:
  assumes "process_starting_point fuel method ns bn s en = Some (Inr s')"
  shows "this_branch_index method (map (si s) (generate_list_of_childs ns en)) = Inr (si s' en)"
proof -
  from assms obtain idx parent0 spine parent_node where
    idx: "this_branch_index method (map (si s) (generate_list_of_childs ns en)) = Inr idx"
    and w: "walk_spine fuel ns bn parent0 [en] = Some (spine, parent_node)"
    and s': "si s' = (\<lambda>n. if n \<in> set spine then idx else si s n)"
    by (auto simp: process_starting_point_def Let_def split: sum.splits option.splits prod.splits)
  from walk_spine_keeps[OF w] have "en \<in> set spine" by simp
  then show ?thesis using idx s' by simp
qed

text \<open>
  C2 (the code at the failing input).  A root with two end nodes as children: the
  \<^verbatim>\<open>type\<close> column is the one the classification gives, the root has the children 2
  and 3, both get index 1, and the rule gives 2 for a node with two children of index
  1.  The engine, with either method, leaves the root at 1: a root is not a branch
  node, so each spine walks into it and overwrites its index.
\<close>

theorem strahler_fork_root:
  "classify_nodes fork_nodes = fork_nodes \<and>
   generate_list_of_childs fork_nodes 1 = [2, 3] \<and>
   strahler_column (strahler_index_fn 3 Standard fork_neuron) = Some (Inr [Some 1, Some 1, Some 1]) \<and>
   strahler_column (strahler_index_fn 3 Greedy fork_neuron) = Some (Inr [Some 1, Some 1, Some 1]) \<and>
   this_branch_index Standard [Some 1, Some 1] = Inr (Some 2) \<and>
   this_branch_index Greedy [Some 1, Some 1] = Inr (Some 2)"
  by code_simp

section \<open>Flow centrality\<close>

lemma set_unique: "set (unique xs) = set xs"
  by (simp add: unique_def)

lemma map2_plus_map: "map2 (+) (map f xs) (map g xs) = map (\<lambda>x. f x + g x) xs"
  by (induction xs) auto

lemma length_unique: "length (unique xs) = card (set xs)"
  by (simp add: unique_def length_remdups_card_conv)

lemma length_filter_unique: "length (filter P (unique xs)) = card (set (filter P xs))"
proof -
  have "filter P (unique xs) = rev (filter P (remdups (rev xs)))"
    by (simp add: unique_def rev_filter)
  then have "length (filter P (unique xs)) = length (remdups (filter P (rev xs)))"
    by (simp add: remdups_filter)
  then show ?thesis by (simp add: length_remdups_card_conv)
qed

text \<open>
  C1.  Let \<open>n_post\<close> be the number of nodes with a postsynapse (\<^verbatim>\<open>relation == 1\<close>), and
  \<open>d_post n\<close> and \<open>d_pre n\<close> the numbers of nodes with a postsynapse and with a
  presynapse (\<^verbatim>\<open>relation == 0\<close>) that are distal to \<open>n\<close>.  The dictionary
  \<^verbatim>\<open>centrifugal\<close> holds \<open>(n_post - d_post n) * d_pre n\<close>, the dictionary \<^verbatim>\<open>centripetal\<close>
  holds \<open>d_post n * (n_post - d_pre n)\<close>, where \<open>n_post\<close> counts the postsynaptic
  nodes in both, and in mode \<^verbatim>\<open>'sum'\<close> the column holds the sum of the two at every
  branch node and every node with a connector, and \<^verbatim>\<open>None\<close> at every other node.
\<close>

theorem flow_centrality_sum:
  "(let post = map cn_treenode_id (filter (\<lambda>cn. relation cn = 1) (connectors y));
        pre = map cn_treenode_id (filter (\<lambda>cn. relation cn = 0) (connectors y));
        calc = map treenode_id
                 (filter (\<lambda>r. type r = Branch \<or>
                               treenode_id r \<in> set (map cn_treenode_id (connectors y)))
                    (nodes y));
        n_post = int (card (set post));
        d_post = (\<lambda>n. int (card (set (filter (\<lambda>a. distal_to y a n) post))));
        d_pre = (\<lambda>n. int (card (set (filter (\<lambda>a. distal_to y a n) pre))))
    in flow_centrality distal_to y ''sum'' =
         Inr (\<lambda>n. if n \<in> set calc
                  then Some ((n_post - d_post n) * d_pre n + d_post n * (n_post - d_pre n))
                  else None) \<and>
       centrifugal distal_to y n = (n_post - d_post n) * d_pre n \<and>
       centripetal distal_to y n = d_post n * (n_post - d_pre n))"
proof -
  have tp: "total_post y =
      int (card (set (map cn_treenode_id (filter (\<lambda>cn. relation cn = 1) (connectors y)))))"
    by (simp only: total_post_def post_node_ids_def length_unique)
  have dpost: "\<And>n. distal_post distal_to y n =
      int (card (set (filter (\<lambda>a. distal_to y a n)
             (map cn_treenode_id (filter (\<lambda>cn. relation cn = 1) (connectors y))))))"
    by (simp only: distal_post_def distal_count_def post_node_ids_def length_filter_unique)
  have dpre: "\<And>n. distal_pre distal_to y n =
      int (card (set (filter (\<lambda>a. distal_to y a n)
             (map cn_treenode_id (filter (\<lambda>cn. relation cn = 0) (connectors y))))))"
    by (simp only: distal_pre_def distal_count_def pre_node_ids_def length_filter_unique)
  have "map_of (zip (unique (calc_node_ids y))
           (map (\<lambda>n. centrifugal distal_to y n + centripetal distal_to y n)
              (unique (calc_node_ids y)))) =
        (\<lambda>n. if n \<in> set (calc_node_ids y)
              then Some (centrifugal distal_to y n + centripetal distal_to y n) else None)"
    by (simp add: map_of_zip_map set_unique)
  then have "flow_centrality distal_to y ''sum'' =
      Inr (\<lambda>n. if n \<in> set (calc_node_ids y)
                then Some (centrifugal distal_to y n + centripetal distal_to y n) else None)"
    by (simp add: flow_centrality_def Let_def map2_plus_map)
  then show ?thesis
    unfolding centrifugal_def centripetal_def tp dpost dpre calc_node_ids_def Let_def
    by simp
qed

theorem flow_centrality_sum_witness:
  "column_values (Some (flow_centrality spec_distal_to uneven_neuron ''sum'')) [1, 2, 3, 4] =
     Some (Inr [None, Some 4, Some 5, Some 3]) \<and>
   card (set (map cn_treenode_id (filter (\<lambda>cn. relation cn = 1) (connectors uneven_neuron)))) = 3 \<and>
   card (set (map cn_treenode_id (filter (\<lambda>cn. relation cn = 0) (connectors uneven_neuron)))) = 2 \<and>
   centrifugal spec_distal_to uneven_neuron 2 = (3 - 1) * 1 \<and>
   centripetal spec_distal_to uneven_neuron 2 = 1 * (3 - 1) \<and>
   centrifugal spec_distal_to uneven_neuron 3 = (3 - 2) * 1 \<and>
   centripetal spec_distal_to uneven_neuron 3 = 2 * (3 - 1)"
proof -
  have post: "map cn_treenode_id (filter (\<lambda>cn. relation cn = 1) (connectors uneven_neuron)) = [5, 7, 3]"
    by code_simp
  have pre: "map cn_treenode_id (filter (\<lambda>cn. relation cn = 0) (connectors uneven_neuron)) = [4, 6]"
    by code_simp
  have calc: "map treenode_id
                 (filter (\<lambda>r. type r = Branch \<or>
                      treenode_id r \<in> set (map cn_treenode_id (connectors uneven_neuron)))
                    (nodes uneven_neuron)) = [2, 3, 4, 5, 6, 7]"
    by code_simp
  have d: "map (\<lambda>n. map (\<lambda>a. spec_distal_to uneven_neuron a n) [5, 7, 3, 4, 6]) [1, 2, 3, 4] =
             [[True, True, True, True, True], [True, False, False, True, False],
              [False, True, True, False, True], [False, False, False, True, False]]"
    by code_simp
  show ?thesis
    using flow_centrality_sum[where distal_to = spec_distal_to and y = uneven_neuron and n = 2]
          flow_centrality_sum[where distal_to = spec_distal_to and y = uneven_neuron and n = 3] d
    unfolding Let_def post pre calc
    by (simp add: column_values_def)
qed

text \<open>
  The other modes: \<^verbatim>\<open>'centrifugal'\<close> attaches the centrifugal value, and
  \<^verbatim>\<open>'centripetal'\<close> stops at line 958 with \<^verbatim>\<open>NameError\<close>.
\<close>

lemma flow_centrality_centrifugal:
  "flow_centrality distal_to y ''centrifugal'' =
     Inr (\<lambda>n. if n \<in> set (calc_node_ids y) then Some (centrifugal distal_to y n) else None)"
  by (simp add: flow_centrality_def Let_def map_of_zip_map set_unique)

lemma flow_centrality_centripetal:
  "flow_centrality distal_to y ''centripetal'' = Inl NameError"
  by (simp add: flow_centrality_def)

section \<open>Stitching\<close>

text \<open>
  C9 (the claim fails).  Called with one neuron and a valid method, the function
  returns that neuron; it raises nothing.
\<close>

theorem stitch_one_counterexample:
  "stitch_neurons spec_core [fork_neuron] (Some ''ALL'') = Inr fork_neuron"
  by (simp add: stitch_neurons_def py_index_def)

text \<open>
  C9 as amended.  Called with exactly one neuron, the function returns this neuron when
  the method is one of \<^verbatim>\<open>'LEAFS'\<close>, \<^verbatim>\<open>'ALL'\<close>, \<^verbatim>\<open>'NONE'\<close> and \<^verbatim>\<open>None\<close>, and raises
  \<^verbatim>\<open>ValueError\<close> for any other method.
\<close>

theorem stitch_one_tree:
  "stitch_neurons c [n] method =
     (if method \<in> {Some ''LEAFS'', Some ''ALL'', Some ''NONE'', None} then Inr n
      else Inl ValueError)"
  by (auto simp: stitch_neurons_def py_index_def)

theorem stitch_one_tree_witness:
  "stitch_neurons spec_core [comb_neuron] (Some ''LEAFS'') = Inr comb_neuron \<and>
   stitch_neurons spec_core [comb_neuron] None = Inr comb_neuron \<and>
   stitch_neurons spec_core [comb_neuron] (Some ''all'') = Inl ValueError"
  using stitch_one_tree[of spec_core comb_neuron "Some ''LEAFS''"]
        stitch_one_tree[of spec_core comb_neuron None]
        stitch_one_tree[of spec_core comb_neuron "Some ''all''"]
  by simp

text \<open>
  C3 (the code at the failing input).  For the neurons A and B the candidates are all
  four nodes with either method.  The function picks treenode 1 of A (the node of A
  closest to the first node of B) and treenode 3 of B (the node of B closest to the
  first node of A), although the pair 2 and 4 is closer, and hangs 3 below 1.
\<close>

theorem stitch_not_closest_pair:
  "closest_treenodes (candidates (Some ''ALL'') (nodes stitch_A))
                     (candidates (Some ''ALL'') (nodes stitch_B)) = Inr (1, 3) \<and>
   closest_treenodes (candidates (Some ''LEAFS'') (nodes stitch_A))
                     (candidates (Some ''LEAFS'') (nodes stitch_B)) = Inr (1, 3) \<and>
   euclidean (xyz (nodes stitch_A ! 1)) (xyz (nodes stitch_B ! 1)) <
     euclidean (xyz (nodes stitch_A ! 0)) (xyz (nodes stitch_B ! 0)) \<and>
   min_distance (nodes stitch_A) (nodes stitch_B) = 1 \<and>
   map_sum id links (stitch_neurons spec_core [stitch_A, stitch_B] (Some ''ALL'')) =
     Inr [(1, None), (2, Some 1), (3, Some 1), (4, Some 3)]"
  by (simp add: closest_treenodes_def candidates_def stitch_A_def stitch_B_def mk_node_def
        argmin_def euclidean_def min_distance_def stitch_neurons_def links_def
        reroot_def spec_core_def reversed_parent_def loc_parent_def
        clear_temp_attr_def classify_nodes_def)

section \<open>Pruning\<close>

lemma classify_nodes_ids [simp]:
  "map treenode_id (classify_nodes ns) = map treenode_id ns"
  "map strahler_index (classify_nodes ns) = map strahler_index ns"
  by (simp_all add: classify_nodes_def comp_def)

lemma reroot_cols [simp]:
  "map treenode_id (nodes (reroot c x s)) = map treenode_id (nodes x)"
  "has_strahler (reroot c x s) = False"
  "connectors (reroot c x s) = connectors x"
  by (simp_all add: reroot_def comp_def)

lemma prepare_has_strahler:
  "prepare c fuel x rs force = Some (Inr y) \<Longrightarrow> has_strahler y"
  by (auto simp: prepare_def reroot_to_soma_def Let_def strahler_index_fn_def
           split: option.splits sum.splits if_splits)

text \<open>
  The first step of pruning returns when the rerooted table satisfies the tree invariant
  and the fuel covers its rows.
\<close>

lemma prepare_returns:
  assumes "well_formed (nodes (reroot_to_soma c x reroot_soma))"
    and "ends_childless (nodes (reroot_to_soma c x reroot_soma))"
    and "length (nodes (reroot_to_soma c x reroot_soma)) \<le> fuel"
  shows "\<exists>y. prepare c fuel x reroot_soma force = Some (Inr y)"
  using strahler_index_fn_returns[OF assms, of Standard] by (auto simp: prepare_def Let_def)

lemma relocate_tn_in:
  "relocate_tn fuel pd rem p = Some (Inr t) \<Longrightarrow> t \<in> set rem"
proof (induction fuel arbitrary: p)
  case 0 then show ?case by (cases p) (auto split: if_splits)
next
  case (Suc fuel) then show ?case by (cases p) (auto split: if_splits option.splits)
qed

lemma relocate_result_remaining:
  "relocate fuel pd rem cns = Some (Inr cns') \<Longrightarrow> \<forall>cn\<in>set cns'. cn_treenode_id cn \<in> set rem"
proof (induction cns arbitrary: cns')
  case Nil then show ?case by simp
next
  case (Cons cn cns)
  show ?case
  proof (cases "cn_treenode_id cn \<in> set rem")
    case True
    then obtain r where "relocate fuel pd rem cns = Some (Inr r)" "cns' = cn # r"
      using Cons.prems by (auto split: option.splits sum.splits)
    then show ?thesis using True Cons.IH by auto
  next
    case False
    then obtain p t r where "relocate_tn fuel pd rem p = Some (Inr t)"
      "relocate fuel pd rem cns = Some (Inr r)" "cns' = cn\<lparr>cn_treenode_id := t\<rparr> # r"
      using Cons.prems by (auto split: option.splits sum.splits)
    then show ?thesis using Cons.IH relocate_tn_in by auto
  qed
qed

lemma fixed_parent_cols:
  "map treenode_id (map (\<lambda>r. case parent_id r of None \<Rightarrow> r
       | Some p \<Rightarrow> if p \<in> S then r else r\<lparr>parent_id := None\<rparr>) kept) = map treenode_id kept"
  by (auto split: option.splits)

lemma prune_prepared_result:
  assumes "prune_prepared fuel y tp reloc = Some (Inr z)"
  shows "\<exists>l. prepare_indices (nodes y) tp = Inr l \<and>
             map treenode_id (nodes z) =
               map treenode_id (filter (\<lambda>r. \<not> isin (strahler_index r) l) (nodes y)) \<and>
             \<not> has_strahler z \<and>
             (\<forall>cn\<in>set (connectors z). cn_treenode_id cn \<in> set (map treenode_id (nodes z)))"
proof -
  from assms obtain l where l: "prepare_indices (nodes y) tp = Inr l"
    by (auto simp: prune_prepared_def prune_nodes_def split: sum.splits)
  define kept where "kept = filter (\<lambda>r. \<not> isin (strahler_index r) l) (nodes y)"
  define fixed where "fixed = map (\<lambda>r. case parent_id r of None \<Rightarrow> r
                        | Some p \<Rightarrow> if p \<in> set (map treenode_id kept) then r else r\<lparr>parent_id := None\<rparr>) kept"
  have ids: "map treenode_id fixed = map treenode_id kept"
    unfolding fixed_def by (rule fixed_parent_cols)
  have pn: "prune_nodes (nodes y) tp = Inr kept"
    by (simp add: prune_nodes_def l kept_def)
  have eq: "prune_prepared fuel y tp reloc =
     (case (if \<not> reloc then Some (Inr (filter (\<lambda>cn. cn_treenode_id cn \<in> set (map treenode_id kept)) (connectors y)))
            else relocate fuel (parent_dict (nodes y)) (map treenode_id kept) (connectors y)) of
        None \<Rightarrow> None | Some (Inl e) \<Rightarrow> Some (Inl e)
      | Some (Inr cns) \<Rightarrow> Some (Inr (clear_temp_attr (y\<lparr> nodes := fixed, connectors := cns \<rparr>))))"
    unfolding prune_prepared_def Let_def pn fixed_def by simp
  have cols: "\<And>cns. map treenode_id (nodes (clear_temp_attr (y\<lparr> nodes := fixed, connectors := cns \<rparr>)))
                 = map treenode_id kept"
    using ids by (simp add: clear_temp_attr_def classify_nodes_def comp_def)
  show ?thesis
  proof (cases reloc)
    case True
    with eq assms obtain cns where
      r: "relocate fuel (parent_dict (nodes y)) (map treenode_id kept) (connectors y) = Some (Inr cns)"
      and z: "z = clear_temp_attr (y\<lparr> nodes := fixed, connectors := cns \<rparr>)"
      by (auto split: option.splits sum.splits)
    from relocate_result_remaining[OF r] show ?thesis
      using l z cols[of cns] by (simp add: clear_temp_attr_def kept_def[symmetric])
  next
    case False
    with eq assms have
      z: "z = clear_temp_attr (y\<lparr> nodes := fixed,
             connectors := filter (\<lambda>cn. cn_treenode_id cn \<in> set (map treenode_id kept)) (connectors y) \<rparr>)"
      by auto
    show ?thesis
      using l z cols by (simp add: clear_temp_attr_def kept_def[symmetric])
  qed
qed

lemma prune_by_strahler_prepared:
  "prepare c fuel x rs force = Some (Inr y) \<Longrightarrow>
   prune_by_strahler c fuel x tp rs force reloc = prune_prepared fuel y tp reloc"
  by (simp add: prune_by_strahler_def)

lemma prune_by_strahler_SomeD:
  "prune_by_strahler c fuel x tp rs force reloc = Some (Inr z) \<Longrightarrow>
   \<exists>y. prepare c fuel x rs force = Some (Inr y) \<and> prune_prepared fuel y tp reloc = Some (Inr z)"
  by (auto simp: prune_by_strahler_def split: option.splits sum.splits)

lemma prune_prepared_no_relocation:
  "prepare_indices (nodes y) tp = Inr l \<Longrightarrow> \<exists>z. prune_prepared fuel y tp False = Some (Inr z)"
  by (simp add: prune_prepared_def prune_nodes_def Let_def)

lemma isin_upto: "isin v [a .. b] \<longleftrightarrow> (\<exists>i. v = Some i \<and> a \<le> i \<and> i < b + 1)"
  by (cases v) (auto simp: isin_def)

lemma prepare_indices_negative:
  "k < 0 \<Longrightarrow> strahler_max ns = Inr m \<Longrightarrow> prepare_indices ns (PInt k) = Inr [1 .. m + k]"
  by (simp add: prepare_indices_def)

text \<open>
  C10.  Let \<open>y\<close> be the neuron after rerooting and the Strahler step, and \<open>m\<close> the
  largest entry of its \<^verbatim>\<open>strahler_index\<close> column.  For a negative int \<open>k\<close> as
  \<^verbatim>\<open>to_prune\<close> the call without relocation returns, and every neuron a call returns
  holds exactly the rows of \<open>y\<close> whose index is not in \<^verbatim>\<open>range(1, m + k + 1)\<close>; for
  \<open>k = -1\<close> every row of index \<open>m\<close> is among them.
\<close>

theorem prune_negative_int:
  assumes "k < 0"
    and "prepare c fuel x reroot_soma force = Some (Inr y)"
    and "strahler_max (nodes y) = Inr m"
  shows "(\<exists>z. prune_by_strahler c fuel x (PInt k) reroot_soma force False = Some (Inr z)) \<and>
         (\<forall>z reloc. prune_by_strahler c fuel x (PInt k) reroot_soma force reloc = Some (Inr z) \<longrightarrow>
            map treenode_id (nodes z) =
              map treenode_id
                (filter (\<lambda>r. \<not> (\<exists>v. strahler_index r = Some v \<and> 1 \<le> v \<and> v < m + k + 1)) (nodes y)) \<and>
            (k = - 1 \<longrightarrow>
               (\<forall>r\<in>set (nodes y). strahler_index r = Some m \<longrightarrow>
                  treenode_id r \<in> set (map treenode_id (nodes z)))))"
proof (intro conjI allI impI)
  have l: "prepare_indices (nodes y) (PInt k) = Inr [1 .. m + k]"
    using assms(1,3) by (rule prepare_indices_negative)
  show "\<exists>z. prune_by_strahler c fuel x (PInt k) reroot_soma force False = Some (Inr z)"
    using prune_prepared_no_relocation[OF l] prune_by_strahler_prepared[OF assms(2)] by simp
  fix z reloc
  assume "prune_by_strahler c fuel x (PInt k) reroot_soma force reloc = Some (Inr z)"
  then have "prune_prepared fuel y (PInt k) reloc = Some (Inr z)"
    using prune_by_strahler_prepared[OF assms(2)] by simp
  from prune_prepared_result[OF this] l
  have ids: "map treenode_id (nodes z) =
      map treenode_id (filter (\<lambda>r. \<not> isin (strahler_index r) [1 .. m + k]) (nodes y))"
    by auto
  then show ids': "map treenode_id (nodes z) =
      map treenode_id
        (filter (\<lambda>r. \<not> (\<exists>v. strahler_index r = Some v \<and> 1 \<le> v \<and> v < m + k + 1)) (nodes y))"
    by (simp add: isin_upto)
  show "\<forall>r\<in>set (nodes y). strahler_index r = Some m \<longrightarrow>
           treenode_id r \<in> set (map treenode_id (nodes z))" if "k = - 1"
    using that ids' by auto
qed

lemma set_somes: "set (map the (filter (\<lambda>v. v \<noteq> None) xs)) = {v. Some v \<in> set xs}"
  by (induction xs) auto

lemma finite_somes: "finite {v. Some v \<in> set xs}"
  using set_somes[of xs, symmetric] by simp

lemma strahler_max_alt:
  "strahler_max ns =
     (if {v. Some v \<in> set (map strahler_index ns)} = {} then Inl TypeError
      else Inr (Max {v. Some v \<in> set (map strahler_index ns)}))"
proof (cases "map the (filter (\<lambda>v. v \<noteq> None) (map strahler_index ns))")
  case Nil
  then show ?thesis
    using set_somes[of "map strahler_index ns"] by (simp add: strahler_max_def)
next
  case (Cons v vs)
  then have "{v. Some v \<in> set (map strahler_index ns)} = set (v # vs)"
    using set_somes[of "map strahler_index ns"] by simp
  then show ?thesis using Cons by (simp add: strahler_max_def)
qed

lemma strahler_max_filter:
  assumes "strahler_max ns = Inr m" "k < 0"
    and "map strahler_index ms = map strahler_index (filter (\<lambda>r. \<not> isin (strahler_index r) [1 .. m + k]) ns)"
  shows "strahler_max ms = Inr m"
proof -
  let ?S = "{v. Some v \<in> set (map strahler_index ns)}"
  let ?T = "{v. Some v \<in> set (map strahler_index ms)}"
  have fin: "finite ?S" by (rule finite_somes)
  from assms(1) have ne: "?S \<noteq> {}" and m: "m = Max ?S"
    by (auto simp: strahler_max_alt split: if_splits)
  have "m \<in> ?S" using Max_in[OF fin ne] m by simp
  have T: "?T = {v \<in> ?S. \<not> (1 \<le> v \<and> v < m + k + 1)}"
    unfolding assms(3) by (auto simp: isin_upto)
  have "m \<in> ?T" using \<open>m \<in> ?S\<close> assms(2) unfolding T by simp
  moreover have "finite ?T" using fin unfolding T by simp
  moreover have "\<forall>v\<in>?T. v \<le> m" using fin m unfolding T by auto
  ultimately have "Max ?T = m" by (intro Max_eqI) auto
  then show ?thesis using \<open>m \<in> ?T\<close> by (auto simp: strahler_max_alt)
qed

lemma prepare_indices_stable:
  assumes "prepare_indices ns tp = Inr l"
    and "map strahler_index ms = map strahler_index (filter (\<lambda>r. \<not> isin (strahler_index r) l) ns)"
  shows "prepare_indices ms tp = Inr l"
proof (cases tp)
  case (PInt k)
  show ?thesis
  proof (cases "k < 0")
    case True
    with assms(1) PInt obtain m where m: "strahler_max ns = Inr m" and l: "l = [1 .. m + k]"
      by (auto simp: prepare_indices_def split: sum.splits)
    from strahler_max_filter[OF m True] assms(2) l have "strahler_max ms = Inr m" by simp
    then show ?thesis using PInt True l by (simp add: prepare_indices_def)
  next
    case False
    then show ?thesis using assms(1) PInt by (simp add: prepare_indices_def)
  qed
next
  case (PList x2)
  then show ?thesis using assms(1) by (simp add: prepare_indices_def)
next
  case (PRange a b)
  then show ?thesis using assms(1) by (simp add: prepare_indices_def)
qed

lemma filter_all_by_column:
  assumes "map f ms = map f (filter (\<lambda>r. P (f r)) ns)"
  shows "filter (\<lambda>r. P (f r)) ms = ms"
proof -
  have "\<forall>v\<in>set (map f ms). P v" unfolding assms by auto
  then show ?thesis by (auto intro: filter_True)
qed

text \<open>
  C7 as amended.  With the Strahler indices held as the node table carries them, removing
  the indices of \<^verbatim>\<open>to_prune\<close> (lines 470--482) a second time from the rows that remained
  removes no row: the second pass returns the table it was given.
\<close>

theorem prune_nodes_twice:
  assumes "prune_nodes ns tp = Inr kept"
  shows "prune_nodes kept tp = Inr kept"
proof -
  from assms obtain l where l: "prepare_indices ns tp = Inr l"
    and kept: "kept = filter (\<lambda>r. \<not> isin (strahler_index r) l) ns"
    by (auto simp: prune_nodes_def split: sum.splits)
  have "prepare_indices kept tp = Inr l"
    using prepare_indices_stable[OF l, of kept] kept by simp
  moreover have "filter (\<lambda>r. \<not> isin (strahler_index r) l) kept = kept"
    using filter_all_by_column[of strahler_index kept "\<lambda>v. \<not> isin v l" ns] kept by simp
  ultimately show ?thesis by (simp add: prune_nodes_def)
qed

text \<open>
  C4 as amended.  If every row of the neuron \<open>y\<close> (after rerooting and the Strahler
  step) has its index among those to prune, the call without relocation of connectors
  returns \<open>y\<close> with an empty node table and an empty connector table (and, the
  Strahler indices being invalidated, without \<^verbatim>\<open>strahler_index\<close> column).
\<close>

theorem prune_everything_returns_empty:
  assumes "prepare c fuel x reroot_soma force = Some (Inr y)"
    and "prepare_indices (nodes y) tp = Inr l"
    and "\<forall>r\<in>set (nodes y). isin (strahler_index r) l"
  shows "prune_by_strahler c fuel x tp reroot_soma force False =
           Some (Inr (y\<lparr> nodes := [], connectors := [], has_strahler := False \<rparr>))"
proof -
  have "filter (\<lambda>r. \<not> isin (strahler_index r) l) (nodes y) = []"
    using assms(3) by (simp add: filter_empty_conv)
  then show ?thesis
    using assms(2) prune_by_strahler_prepared[OF assms(1)]
    by (simp add: prune_prepared_def prune_nodes_def Let_def clear_temp_attr_def
          classify_nodes_def)
qed

lemma prepare_comb: "prepare spec_core 6 comb_neuron True False = Some (Inr comb_indexed)"
  by code_simp

lemma strahler_max_comb: "strahler_max (nodes comb_indexed) = Inr 2"
  by code_simp

theorem prune_negative_int_witness:
  "(- 1 :: int) < 0 \<and>
   prepare spec_core 6 comb_neuron True False = Some (Inr comb_indexed) \<and>
   strahler_max (nodes comb_indexed) = Inr 2 \<and>
   (\<exists>z. prune_by_strahler spec_core 6 comb_neuron (PInt (- 1)) True False False = Some (Inr z) \<and>
        map treenode_id (nodes z) = [1, 2, 4])"
proof -
  have k: "(- 1 :: int) < 0" by simp
  note t = prune_negative_int[OF k prepare_comb strahler_max_comb]
  from t obtain z where
    z: "prune_by_strahler spec_core 6 comb_neuron (PInt (- 1)) True False False = Some (Inr z)"
    by blast
  with t have "map treenode_id (nodes z) =
      map treenode_id
        (filter (\<lambda>r. \<not> (\<exists>v. strahler_index r = Some v \<and> 1 \<le> v \<and> v < 2 + (- 1) + 1))
           (nodes comb_indexed))"
    by blast
  also have "\<dots> = [1, 2, 4]"
    by (simp add: comb_indexed_def comb_nodes_def mk_node_def)
  finally show ?thesis using z prepare_comb strahler_max_comb by simp
qed

text \<open>
  The same call on a neuron whose soma is treenode 4: the neuron is rerooted to 4 first,
  the indices are computed on the rerooted tree, and the nodes 2 and 4 remain.
\<close>

lemma prune_rerooted:
  "map_option (map_sum id links)
     (prune_by_strahler soma_core 6 comb_neuron (PInt (- 1)) True False False) =
   Some (Inr [(2, Some 4), (4, None)])"
  by code_simp

lemma prune_nodes_comb: "prune_nodes (nodes comb_indexed) (PInt (- 1)) = Inr comb_kept"
  by code_simp

theorem prune_nodes_twice_witness:
  "prune_nodes (nodes comb_indexed) (PInt (- 1)) = Inr comb_kept \<and>
   map treenode_id comb_kept = [1, 2, 4] \<and>
   prune_nodes comb_kept (PInt (- 1)) = Inr comb_kept"
  using prune_nodes_twice[OF prune_nodes_comb] prune_nodes_comb
  by (simp add: comb_kept_def mk_node_def)

text \<open>
  C7 (the claim fails).  The call with all its defaults (\<^verbatim>\<open>to_prune=range(1, 2)\<close>) on
  \<open>comb_neuron\<close> returns the nodes 1, 2 and 4, whose Strahler indices the call has
  invalidated.  The same call on this neuron computes the indices anew, finds index 1 at
  all three nodes, and removes them.
\<close>

theorem prune_twice_counterexample:
  "prune_by_strahler spec_core 6 comb_neuron (PRange 1 2) True False False =
     Some (Inr comb_pruned) \<and>
   map treenode_id (nodes comb_pruned) = [1, 2, 4] \<and>
   prune_by_strahler spec_core 6 comb_pruned (PRange 1 2) True False False =
     Some (Inr \<lparr> nodes = [], connectors = [], has_strahler = False \<rparr>)"
  by code_simp

lemma prepare_chain: "prepare spec_core 3 chain_neuron True False = Some (Inr chain_indexed)"
  by code_simp

theorem prune_everything_returns_empty_witness:
  "prepare spec_core 3 chain_neuron True False = Some (Inr chain_indexed) \<and>
   prepare_indices (nodes chain_indexed) (PList [1, 2]) = Inr [1, 2] \<and>
   list_all (\<lambda>r. isin (strahler_index r) [1, 2]) (nodes chain_indexed) \<and>
   prune_by_strahler spec_core 3 chain_neuron (PList [1, 2]) True False False =
     Some (Inr (chain_indexed\<lparr> nodes := [], connectors := [], has_strahler := False \<rparr>))"
proof -
  have a: "prepare_indices (nodes chain_indexed) (PList [1, 2]) = Inr [1, 2]" by code_simp
  have b: "\<forall>r\<in>set (nodes chain_indexed). isin (strahler_index r) [1, 2]" by code_simp
  show ?thesis
    using prune_everything_returns_empty[OF prepare_chain a b] prepare_chain a b
    by (simp add: list_all_iff)
qed

text \<open>
  C4 (the claim fails).  Pruning index 1 from the root with two end nodes removes all
  three nodes, and the call returns a neuron with empty tables.
\<close>

theorem prune_everything_counterexample:
  "prune_by_strahler spec_core 3 fork_neuron (PInt 1) True False False =
     Some (Inr \<lparr> nodes = [], connectors = [], has_strahler = False \<rparr>)"
  by code_simp

text \<open>
  With relocation of connectors the same situation ends in \<^verbatim>\<open>KeyError\<close>: the walk to a
  remaining treenode passes the root.
\<close>

lemma prune_everything_relocation:
  "prune_by_strahler spec_core 3 chain_neuron (PInt 1) True False True = Some (Inl KeyError)"
  by code_simp

section \<open>Segregation index\<close>

lemma n_post_le: "n_postsynapses n \<le> n_connectors n"
  by (simp add: n_postsynapses_def n_connectors_def)

lemma fraction_post_range:
  "0 < n_connectors n \<Longrightarrow> 0 \<le> fraction_post n \<and> fraction_post n \<le> 1"
  using n_post_le[of n] by (simp add: fraction_post_def)

lemma entropy_spec: "0 \<le> p \<Longrightarrow> p \<le> 1 \<Longrightarrow> entropy p = spec_entropy p"
  by (auto simp: entropy_def spec_entropy_def)

lemma entropy_pos:
  assumes "0 < p" "p < 1"
  shows "0 < entropy p"
proof -
  have "ln p < 0" "ln (1 - p) < 0" using assms by simp_all
  then have "p * ln p < 0" "(1 - p) * ln (1 - p) < 0"
    using assms by (simp_all add: mult_pos_neg)
  then show ?thesis using assms by (simp add: entropy_def)
qed

lemma sum_list_map2_same:
  "sum_list (map2 (\<lambda>e n. e * g n) (map f x) x) = (\<Sum>n\<leftarrow>x. f n * g n)"
  by (induction x) auto

lemma sum_connectors_pos:
  assumes "x \<noteq> []" "list_all (\<lambda>n. 0 < n_connectors n) x"
  shows "0 < sum_list (map n_connectors x)"
  using assms by (induction x) auto

lemma sum_post_le: "sum_list (map n_postsynapses x) \<le> sum_list (map n_connectors x)"
  by (induction x) (auto simp: n_post_le add_mono)

lemma real_sum_list: "real (sum_list (map f x)) = (\<Sum>n\<leftarrow>x. real (f n))"
  by (induction x) auto

text \<open>
  Where every fragment of the split has a connector, the function returns the index as
  the specification words it: per fragment the entropy
  \<open>S = -(p ln p + (1 - p) ln (1 - p))\<close> of the fraction \<open>p\<close> of postsynaptic
  connectors, 0 when \<open>p\<close> is 0 or 1; their average weighted by the numbers of
  connectors; and \<open>H = 1 - S_avg / S_norm\<close>, 0 when the pooled fraction is 0 or 1.
  Where the division by \<open>S_norm\<close> takes place, \<open>S_norm\<close> is positive.
\<close>

lemma segregation_index_with_connectors:
  assumes "x \<noteq> []" and "list_all (\<lambda>n. 0 < n_connectors n) x"
  shows "segregation_index x = Inr (spec_segregation x) \<and>
         (spec_p_norm x \<noteq> 0 \<and> spec_p_norm x \<noteq> 1 \<longrightarrow> 0 < spec_entropy (spec_p_norm x))"
proof -
  have tot: "0 < sum_list (map n_connectors x)" using sum_connectors_pos[OF assms] .
  have no0: "\<not> list_ex (\<lambda>n. n_connectors n = 0) x"
    using assms(2) by (auto simp: list_ex_iff list_all_iff)
  have ent: "map (\<lambda>n. entropy (real (n_postsynapses n) / real (n_connectors n))) x =
             map (\<lambda>n. spec_entropy (fraction_post n)) x"
  proof (rule map_cong[OF refl])
    fix n assume "n \<in> set x"
    then have "0 < n_connectors n" using assms(2) by (simp add: list_all_iff)
    from fraction_post_range[OF this] entropy_spec[of "fraction_post n"]
    show "entropy (real (n_postsynapses n) / real (n_connectors n)) = spec_entropy (fraction_post n)"
      by (simp add: fraction_post_def)
  qed
  have pn: "real (sum_list (map n_postsynapses x)) / real (sum_list (map n_connectors x)) = spec_p_norm x"
    by (simp add: spec_p_norm_def real_sum_list)
  have range: "0 \<le> spec_p_norm x" "spec_p_norm x \<le> 1"
    using sum_post_le[of x] tot unfolding pn[symmetric] by simp_all
  have S: "1 / real (sum_list (map n_connectors x)) *
             sum_list (map2 (\<lambda>e n. e * real (n_connectors n))
               (map (\<lambda>n. spec_entropy (fraction_post n)) x) x) = spec_S_avg x"
    by (simp add: spec_S_avg_def sum_list_map2_same real_sum_list)
  have "segregation_index x =
          (if 0 < spec_p_norm x \<and> spec_p_norm x < 1
           then Inr (1 - spec_S_avg x / entropy (spec_p_norm x)) else Inr 0)"
    unfolding segregation_index_def Let_def ent pn S using no0 assms(1) by simp
  moreover have "entropy (spec_p_norm x) = spec_entropy (spec_p_norm x)"
    using range by (rule entropy_spec)
  moreover have "spec_p_norm x \<noteq> 0 \<and> spec_p_norm x \<noteq> 1 \<longrightarrow> 0 < spec_entropy (spec_p_norm x)"
    using range entropy_pos[of "spec_p_norm x"] entropy_spec[OF range] by auto
  ultimately show ?thesis using range by (auto simp: spec_segregation_def)
qed

text \<open>
  An axon and a dendrite with mixed connectors: the fractions are \<open>1/4\<close> and \<open>3/4\<close>,
  the pooled fraction is \<open>1/2\<close>.
\<close>

lemma segregation_index_mixed:
  "segregation_index [mixed_axon, mixed_dendrite] =
     Inr (1 - (4 * spec_entropy (1 / 4) + 4 * spec_entropy (3 / 4)) / 8 / spec_entropy (1 / 2))"
proof -
  have a: "[mixed_axon, mixed_dendrite] \<noteq> []" by simp
  have b: "list_all (\<lambda>n. 0 < n_connectors n) [mixed_axon, mixed_dendrite]"
    by (simp add: n_connectors_def mixed_axon_def mixed_dendrite_def)
  have c: "spec_p_norm [mixed_axon, mixed_dendrite] = 1 / 2"
    by (simp add: spec_p_norm_def n_connectors_def n_postsynapses_def
          mixed_axon_def mixed_dendrite_def)
  have d: "spec_S_avg [mixed_axon, mixed_dendrite] =
             (4 * spec_entropy (1 / 4) + 4 * spec_entropy (3 / 4)) / 8"
    by (simp add: spec_S_avg_def fraction_post_def n_connectors_def
          n_postsynapses_def mixed_axon_def mixed_dendrite_def)
  have e: "spec_segregation [mixed_axon, mixed_dendrite] =
             1 - (4 * spec_entropy (1 / 4) + 4 * spec_entropy (3 / 4)) / 8 / spec_entropy (1 / 2)"
    unfolding spec_segregation_def c d by simp
  show ?thesis using segregation_index_with_connectors[OF a b] e by simp
qed

text \<open>A fragment without connectors ends the call at its division, line 689.\<close>

lemma segregation_index_no_connectors:
  "n_connectors n = 0 \<Longrightarrow> n \<in> set x \<Longrightarrow> segregation_index x = Inl ZeroDivisionError"
  by (auto simp: segregation_index_def list_ex_iff)

text \<open>
  C8 (the code at the failing input).  On a split in three whose primary neurite has
  no connector, the split that the function makes itself before line 686, the call
  ends in \<^verbatim>\<open>ZeroDivisionError\<close> at the first fragment, although the axon and the dendrite
  alone have an index.
\<close>

theorem segregation_index_primary_neurite:
  "n_connectors primary_neurite = 0 \<and>
   segregation_index [primary_neurite, mixed_axon, mixed_dendrite] = Inl ZeroDivisionError \<and>
   isl (segregation_index [mixed_axon, mixed_dendrite]) = False"
  by (simp add: segregation_index_def n_connectors_def primary_neurite_def
        mixed_axon_def mixed_dendrite_def)

section \<open>Confidence propagation\<close>

subsection \<open>The walk\<close>

lemma walk_to_leafs_Suc:
  "walk_to_leafs (Suc fuel) cs ns ac n c =
     (case loc_confidence ns n of
        Inl e \<Rightarrow> Some (Inl e)
      | Inr k \<Rightarrow>
          (case py_index cs (5 - k) of
             Inl e \<Rightarrow> Some (Inl e)
           | Inr f \<Rightarrow>
               walk_childs fuel cs ns (ac(n := Some (c * f))) (generate_list_of_childs ns n) (c * f)))"
  by (auto split: sum.splits list.splits option.splits)

lemma loc_confidence_row:
  "distinct (map treenode_id ns) \<Longrightarrow> r \<in> set ns \<Longrightarrow>
   loc_confidence ns (treenode_id r) = Inr (confidence r)"
  by (simp add: loc_confidence_def find_row)

lemma walk_childs_correct:
  assumes wf: "well_formed ns" and ok: "walk_ok fuel cs ns"
  shows "walk_childs fuel cs ns ac chs c = Some (Inr ac') \<Longrightarrow> distinct chs \<Longrightarrow>
         \<forall>ch\<in>set chs. dep ns ch = d \<and> (\<exists>p. (ch, p) \<in> par ns \<and> ac p = Some c) \<Longrightarrow>
         (\<forall>m. m \<notin> (\<Union>ch\<in>set chs. below ns ch) \<longrightarrow> ac' m = ac m) \<and>
         right_on cs ns ac' (\<Union>ch\<in>set chs. below ns ch)"
proof (induction chs arbitrary: ac)
  case Nil
  then show ?case by (simp add: right_on_def)
next
  case (Cons ch rest)
  from wf have dist: "distinct (map treenode_id ns)" by (simp add: well_formed_def)
  from Cons.prems(1) obtain ac1 where
    w1: "walk_to_leafs fuel cs ns ac ch c = Some (Inr ac1)"
    and w2: "walk_childs fuel cs ns ac1 rest c = Some (Inr ac')"
    by (auto split: option.splits sum.splits)
  from Cons.prems(3) obtain p where p: "(ch, p) \<in> par ns" "ac p = Some c" and dch: "dep ns ch = d"
    by auto
  from ok w1 p have frame1: "\<And>m. m \<notin> below ns ch \<Longrightarrow> ac1 m = ac m"
    and right1: "right_on cs ns ac1 (below ns ch)"
    unfolding walk_ok_def by blast+
  have pre: "\<forall>ch'\<in>set rest. dep ns ch' = d \<and> (\<exists>p'. (ch', p') \<in> par ns \<and> ac1 p' = Some c)"
  proof
    fix ch' assume ch': "ch' \<in> set rest"
    with Cons.prems(3) obtain p' where p': "(ch', p') \<in> par ns" "ac p' = Some c"
      and d': "dep ns ch' = d" by auto
    have "p' \<notin> below ns ch"
      using below_dep[OF wf, of p' ch] par_dep[OF wf p'(1)] d' dch by auto
    then show "dep ns ch' = d \<and> (\<exists>p'. (ch', p') \<in> par ns \<and> ac1 p' = Some c)"
      using frame1 p' d' by auto
  qed
  from Cons.IH[OF w2 _ pre] Cons.prems(2)
  have frame2: "\<And>m. m \<notin> (\<Union>ch\<in>set rest. below ns ch) \<Longrightarrow> ac' m = ac1 m"
    and right2: "right_on cs ns ac' (\<Union>ch\<in>set rest. below ns ch)"
    by auto
  have disj: "\<And>ch' x. ch' \<in> set rest \<Longrightarrow> x \<in> below ns ch \<Longrightarrow> x \<notin> below ns ch'"
  proof -
    fix ch' x assume ch': "ch' \<in> set rest" and x: "x \<in> below ns ch"
    from ch' Cons.prems(2,3) have "ch \<noteq> ch'" "dep ns ch = dep ns ch'" using dch by auto
    from below_disjoint[OF wf this] x show "x \<notin> below ns ch'" by auto
  qed
  have frame: "\<forall>m. m \<notin> (\<Union>ch\<in>set (ch # rest). below ns ch) \<longrightarrow> ac' m = ac m"
    using frame1 frame2 by simp
  have right: "right_on cs ns ac' (\<Union>ch\<in>set (ch # rest). below ns ch)"
    unfolding right_on_def
  proof (intro allI impI)
    fix r q
    assume a: "r \<in> set ns \<and> treenode_id r \<in> (\<Union>ch\<in>set (ch # rest). below ns ch) \<and>
               parent_id r = Some q"
    then have rq: "(treenode_id r, q) \<in> par ns" by (auto simp: par_def)
    show "\<exists>f v. py_index cs (5 - confidence r) = Inr f \<and> ac' q = Some v \<and>
                ac' (treenode_id r) = Some (v * f)"
    proof (cases "treenode_id r \<in> (\<Union>ch\<in>set rest. below ns ch)")
      case True
      then show ?thesis using right2 a unfolding right_on_def by blast
    next
      case False
      with a have inb: "treenode_id r \<in> below ns ch" by simp
      with right1 a obtain f v where fv: "py_index cs (5 - confidence r) = Inr f"
        "ac1 q = Some v" "ac1 (treenode_id r) = Some (v * f)"
        unfolding right_on_def by blast
      have "q \<notin> (\<Union>ch\<in>set rest. below ns ch)"
      proof
        assume "q \<in> (\<Union>ch\<in>set rest. below ns ch)"
        then obtain ch' where ch': "ch' \<in> set rest" "q \<in> below ns ch'" by auto
        from ch' Cons.prems(3) have d': "dep ns ch' = d" by auto
        show False
        proof (cases "treenode_id r = ch")
          case True
          then show ?thesis
            using par_dep[OF wf rq] below_dep[OF wf ch'(2)] d' dch by simp
        next
          case False
          from parent_below[OF dist inb False rq] disj[OF ch'(1)] ch'(2)
          show ?thesis by blast
        qed
      qed
      then show ?thesis using fv frame2 False by auto
    qed
  qed
  from frame right show ?case by blast
qed

lemma walk_ok_all:
  assumes wf: "well_formed ns"
  shows "walk_ok fuel cs ns"
proof (induction fuel)
  case 0
  then show ?case by (simp add: walk_ok_def)
next
  case (Suc fuel)
  from wf have dist: "distinct (map treenode_id ns)" by (simp add: well_formed_def)
  show ?case
    unfolding walk_ok_def
  proof (intro allI impI)
    fix ac n c ac' p
    assume a: "walk_to_leafs (Suc fuel) cs ns ac n c = Some (Inr ac') \<and> (n, p) \<in> par ns \<and>
               ac p = Some c"
    then obtain r where r: "r \<in> set ns" "treenode_id r = n" "parent_id r = Some p"
      by (auto simp: par_def)
    have lc: "loc_confidence ns n = Inr (confidence r)"
      using loc_confidence_row[OF dist r(1)] r(2) by simp
    have w: "walk_to_leafs (Suc fuel) cs ns ac n c = Some (Inr ac')" using a by blast
    from w[unfolded walk_to_leafs_Suc lc] obtain f where f: "py_index cs (5 - confidence r) = Inr f"
      and wc: "walk_childs fuel cs ns (ac(n := Some (c * f))) (generate_list_of_childs ns n) (c * f)
                 = Some (Inr ac')"
      by (auto split: sum.splits)
    let ?chs = "generate_list_of_childs ns n"
    have pre: "\<forall>ch\<in>set ?chs. dep ns ch = Suc (dep ns n) \<and>
                 (\<exists>q. (ch, q) \<in> par ns \<and> (ac(n := Some (c * f))) q = Some (c * f))"
      using par_dep[OF wf] by (auto simp: childs_iff)
    from walk_childs_correct[OF wf Suc wc distinct_childs[OF dist] pre]
    have frame: "\<And>m. m \<notin> (\<Union>ch\<in>set ?chs. below ns ch) \<Longrightarrow> ac' m = (ac(n := Some (c * f))) m"
      and right: "right_on cs ns ac' (\<Union>ch\<in>set ?chs. below ns ch)"
      by auto
    have up: "\<And>x. dep ns x \<le> dep ns n \<Longrightarrow> x \<notin> (\<Union>ch\<in>set ?chs. below ns ch)"
    proof
      fix x assume le: "dep ns x \<le> dep ns n" and "x \<in> (\<Union>ch\<in>set ?chs. below ns ch)"
      then obtain ch where ch: "(ch, n) \<in> par ns" "x \<in> below ns ch" by (auto simp: childs_iff)
      from par_dep[OF wf ch(1)] below_dep[OF wf ch(2)] le show False by simp
    qed
    have sub: "(\<Union>ch\<in>set ?chs. below ns ch) \<subseteq> below ns n"
      using below_child by (fastforce simp: childs_iff)
    have pn: "p \<noteq> n" using par_dep[OF wf, of n p] a by auto
    have "\<forall>m. m \<notin> below ns n \<longrightarrow> ac' m = ac m"
    proof (intro allI impI)
      fix m assume m: "m \<notin> below ns n"
      then have "m \<noteq> n" using below_self by auto
      then show "ac' m = ac m" using frame[of m] sub m by auto
    qed
    moreover have "right_on cs ns ac' (below ns n)"
      unfolding right_on_def
    proof (intro allI impI)
      fix r' q
      assume b: "r' \<in> set ns \<and> treenode_id r' \<in> below ns n \<and> parent_id r' = Some q"
      show "\<exists>f v. py_index cs (5 - confidence r') = Inr f \<and> ac' q = Some v \<and>
                  ac' (treenode_id r') = Some (v * f)"
      proof (cases "treenode_id r' = n")
        case True
        then have "r' = r" using dist r b by (auto simp: distinct_map inj_on_def)
        then have "q = p" using r b by simp
        have "ac' n = Some (c * f)" using frame[of n] up[of n] by simp
        moreover have "ac' p = Some c"
          using frame[of p] up[of p] par_dep[OF wf, of n p] a pn by simp
        ultimately show ?thesis using f \<open>r' = r\<close> \<open>q = p\<close> r by auto
      next
        case False
        from below_cases[OF dist _ False] b obtain ch where
          "(ch, n) \<in> par ns" "treenode_id r' \<in> below ns ch" by blast
        then have "treenode_id r' \<in> (\<Union>ch\<in>set ?chs. below ns ch)" by (auto simp: childs_iff)
        then show ?thesis using right b unfolding right_on_def by blast
      qed
    qed
    ultimately show "(\<forall>m. m \<notin> below ns n \<longrightarrow> ac' m = ac m) \<and> right_on cs ns ac' (below ns n)"
      by blast
  qed
qed


subsection \<open>The whole propagation\<close>

lemma root_dep:
  assumes "well_formed ns" "r \<in> set ns" "parent_id r = None"
  shows "dep ns (treenode_id r) = 0"
proof -
  from assms(1) have dist: "distinct (map treenode_id ns)" by (simp add: well_formed_def)
  obtain k where k: "length ns = Suc k" using assms(2) by (cases ns) auto
  show ?thesis using find_row[OF dist assms(2)] assms(3) by (simp add: dep_def k)
qed

lemma root_iff: "n \<in> set (root ns) \<longleftrightarrow> (\<exists>r\<in>set ns. treenode_id r = n \<and> parent_id r = None)"
  by (auto simp: root_def)

lemma distinct_concat_map:
  "distinct xs \<Longrightarrow> (\<And>x. x \<in> set xs \<Longrightarrow> distinct (f x)) \<Longrightarrow>
   (\<And>x y. x \<in> set xs \<Longrightarrow> y \<in> set xs \<Longrightarrow> x \<noteq> y \<Longrightarrow> set (f x) \<inter> set (f y) = {}) \<Longrightarrow>
   distinct (concat (map f xs))"
  by (induction xs) fastforce+

lemma distinct_root_childs:
  assumes "distinct (map treenode_id ns)"
  shows "distinct (concat (map (generate_list_of_childs ns) (root ns)))"
proof (rule distinct_concat_map)
  show "distinct (root ns)" using assms by (simp add: root_def distinct_map_filter)
next
  fix x show "distinct (generate_list_of_childs ns x)" using assms by (rule distinct_childs)
next
  fix x y :: int assume "x \<noteq> y"
  then show "set (generate_list_of_childs ns x) \<inter> set (generate_list_of_childs ns y) = {}"
    using single_valued_par[OF assms] by (auto simp: childs_iff dest: single_valuedD)
qed

lemma below_root_child:
  assumes wf: "well_formed ns"
  shows "(m, q) \<in> par ns \<Longrightarrow>
         \<exists>ch\<in>set (concat (map (generate_list_of_childs ns) (root ns))). m \<in> below ns ch"
proof (induction "dep ns m" arbitrary: m q rule: less_induct)
  case less
  from par_row[OF wf less.prems] obtain rq where rq: "rq \<in> set ns" "treenode_id rq = q" by blast
  show ?case
  proof (cases "parent_id rq")
    case None
    then have "q \<in> set (root ns)" using rq by (auto simp: root_iff)
    moreover have "m \<in> set (generate_list_of_childs ns q)" using less.prems by (simp add: childs_iff)
    ultimately show ?thesis using below_self[of m ns] by auto
  next
    case (Some q')
    then have qq: "(q, q') \<in> par ns" using rq by (auto simp: par_def)
    have "dep ns q < dep ns m" using par_dep[OF wf less.prems] by simp
    from less.hyps[OF this qq] obtain ch where
      ch: "ch \<in> set (concat (map (generate_list_of_childs ns) (root ns)))" "q \<in> below ns ch"
      by blast
    then have "m \<in> below ns ch" using less.prems
      by (auto simp: below_def intro: converse_rtrancl_into_rtrancl)
    then show ?thesis using ch(1) by blast
  qed
qed

text \<open>What a returned column holds.\<close>

lemma arbor_confidence_right:
  assumes wf: "well_formed ns" and res: "arbor_confidence fuel cs ns = Some (Inr ac)"
  shows "(\<forall>r\<in>set ns. parent_id r = None \<longrightarrow> ac (treenode_id r) = Some 1) \<and>
         right_on cs ns ac UNIV"
proof -
  from wf have dist: "distinct (map treenode_id ns)" by (simp add: well_formed_def)
  let ?ac0 = "\<lambda>n. if n \<in> set (root ns) then Some (1::real) else None"
  let ?chs = "concat (map (generate_list_of_childs ns) (root ns))"
  have pre: "\<forall>ch\<in>set ?chs. dep ns ch = 1 \<and> (\<exists>p. (ch, p) \<in> par ns \<and> ?ac0 p = Some 1)"
  proof
    fix ch assume "ch \<in> set ?chs"
    then obtain p where p: "p \<in> set (root ns)" "(ch, p) \<in> par ns" by (auto simp: childs_iff)
    then have "dep ns p = 0" using root_dep[OF wf] by (auto simp: root_iff)
    then show "dep ns ch = 1 \<and> (\<exists>p. (ch, p) \<in> par ns \<and> ?ac0 p = Some 1)"
      using par_dep[OF wf p(2)] p by auto
  qed
  from res have "walk_childs fuel cs ns ?ac0 ?chs 1 = Some (Inr ac)"
    by (simp add: arbor_confidence_def)
  from walk_childs_correct[OF wf walk_ok_all[OF wf] this distinct_root_childs[OF dist] pre]
  have frame: "\<And>m. m \<notin> (\<Union>ch\<in>set ?chs. below ns ch) \<Longrightarrow> ac m = ?ac0 m"
    and right: "right_on cs ns ac (\<Union>ch\<in>set ?chs. below ns ch)"
    by auto
  have "\<forall>r\<in>set ns. parent_id r = None \<longrightarrow> ac (treenode_id r) = Some 1"
  proof (intro ballI impI)
    fix r assume r: "r \<in> set ns" "parent_id r = None"
    have "treenode_id r \<notin> (\<Union>ch\<in>set ?chs. below ns ch)"
    proof
      assume "treenode_id r \<in> (\<Union>ch\<in>set ?chs. below ns ch)"
      then obtain ch where "ch \<in> set ?chs" "treenode_id r \<in> below ns ch" by blast
      then show False using pre below_dep[OF wf, of "treenode_id r" ch] root_dep[OF wf r] by auto
    qed
    from frame[OF this] show "ac (treenode_id r) = Some 1" using r by (auto simp: root_iff)
  qed
  moreover have "right_on cs ns ac UNIV"
    unfolding right_on_def
  proof (intro allI impI)
    fix r p assume a: "r \<in> set ns \<and> treenode_id r \<in> UNIV \<and> parent_id r = Some p"
    then have "(treenode_id r, p) \<in> par ns" by (auto simp: par_def)
    from below_root_child[OF wf this] have "treenode_id r \<in> (\<Union>ch\<in>set ?chs. below ns ch)" by blast
    then show "\<exists>f v. py_index cs (5 - confidence r) = Inr f \<and> ac p = Some v \<and>
                 ac (treenode_id r) = Some (v * f)"
      using right a unfolding right_on_def by blast
  qed
  ultimately show ?thesis by blast
qed

text \<open>The walk returns when the fuel covers the table and every factor lookup succeeds.\<close>

lemma walk_childs_returns:
  "\<forall>ch\<in>set chs. \<forall>ac. \<exists>ac'. walk_to_leafs fuel cs ns ac ch c = Some (Inr ac') \<Longrightarrow>
   \<exists>ac'. walk_childs fuel cs ns ac chs c = Some (Inr ac')"
proof (induction chs arbitrary: ac)
  case Nil then show ?case by simp
next
  case (Cons ch chs)
  then obtain ac1 where "walk_to_leafs fuel cs ns ac ch c = Some (Inr ac1)" by fastforce
  moreover from Cons obtain ac' where "walk_childs fuel cs ns ac1 chs c = Some (Inr ac')"
    by fastforce
  ultimately show ?case by simp
qed

lemma walk_to_leafs_returns:
  assumes wf: "well_formed ns"
    and valid: "\<forall>r\<in>set ns. parent_id r \<noteq> None \<longrightarrow> (\<exists>f. py_index cs (5 - confidence r) = Inr f)"
  shows "(n, p) \<in> par ns \<Longrightarrow> length ns \<le> fuel + dep ns n \<Longrightarrow>
         \<exists>ac'. walk_to_leafs fuel cs ns ac n c = Some (Inr ac')"
proof (induction fuel arbitrary: ac n c p)
  case 0
  from 0(1) obtain r where "r \<in> set ns" "treenode_id r = n" by (auto simp: par_def)
  then show ?case using row_dep_less[OF wf, of r] 0(2) by simp
next
  case (Suc fuel)
  from wf have dist: "distinct (map treenode_id ns)" by (simp add: well_formed_def)
  from Suc.prems(1) obtain r where r: "r \<in> set ns" "treenode_id r = n" "parent_id r = Some p"
    by (auto simp: par_def)
  have lc: "loc_confidence ns n = Inr (confidence r)"
    using loc_confidence_row[OF dist r(1)] r(2) by simp
  from valid r obtain f where f: "py_index cs (5 - confidence r) = Inr f" by auto
  have "\<forall>ch\<in>set (generate_list_of_childs ns n). \<forall>ac.
          \<exists>ac'. walk_to_leafs fuel cs ns ac ch (c * f) = Some (Inr ac')"
  proof (intro ballI allI)
    fix ch ac assume "ch \<in> set (generate_list_of_childs ns n)"
    then have ch: "(ch, n) \<in> par ns" by (simp add: childs_iff)
    then have "length ns \<le> fuel + dep ns ch" using par_dep[OF wf ch] Suc.prems(2) by simp
    from Suc.IH[OF ch this] show "\<exists>ac'. walk_to_leafs fuel cs ns ac ch (c * f) = Some (Inr ac')" .
  qed
  from walk_childs_returns[OF this, of "ac(n := Some (c * f))"]
  show ?case by (simp only: walk_to_leafs_Suc lc f sum.case)
qed

lemma arbor_confidence_returns:
  assumes wf: "well_formed ns"
    and valid: "\<forall>r\<in>set ns. parent_id r \<noteq> None \<longrightarrow> (\<exists>f. py_index cs (5 - confidence r) = Inr f)"
    and fuel: "length ns \<le> fuel"
  shows "\<exists>ac. arbor_confidence fuel cs ns = Some (Inr ac)"
  unfolding arbor_confidence_def
proof (rule walk_childs_returns, intro ballI allI)
  fix ch ac assume "ch \<in> set (concat (map (generate_list_of_childs ns) (root ns)))"
  then obtain p where "(ch, p) \<in> par ns" by (auto simp: childs_iff)
  from walk_to_leafs_returns[OF wf valid this] fuel
  show "\<exists>ac'. walk_to_leafs fuel cs ns ac ch 1 = Some (Inr ac')" by simp
qed

lemma default_factor:
  "1 \<le> k \<Longrightarrow> k \<le> 5 \<Longrightarrow>
   py_index default_confidences (5 - k) = Inr (default_confidences ! nat (5 - k))"
  by (simp add: py_index_def default_confidences_def)

text \<open>
  C5 as amended.  On a table that satisfies the tree invariant, with confidence values
  1 to 5 on every node that has a parent and fuel for every row, the propagation returns
  a column that holds 1 at every root and, at every other node, the entry of its parent
  times the factor found in the default table \<open>(1, 0.9, 0.6, 0.4, 0.2)\<close> at index
  \<open>5 - confidence\<close>; confidence 5 gives the factor 1.
\<close>

theorem arbor_confidence_default:
  assumes "well_formed ns"
    and "list_all (\<lambda>r. parent_id r \<noteq> None \<longrightarrow> 1 \<le> confidence r \<and> confidence r \<le> 5) ns"
    and "length ns \<le> fuel"
  shows "\<exists>ac. arbor_confidence fuel default_confidences ns = Some (Inr ac) \<and>
           (\<forall>r\<in>set ns.
              case parent_id r of
                None \<Rightarrow> ac (treenode_id r) = Some 1
              | Some p \<Rightarrow>
                  (\<exists>v. ac p = Some v \<and>
                       ac (treenode_id r) =
                         Some (v * default_confidences ! nat (5 - confidence r)))) \<and>
         default_confidences = [1, 9 / 10, 6 / 10, 4 / 10, 2 / 10] \<and>
         default_confidences ! nat (5 - 5) = 1"
proof -
  have valid: "\<forall>r\<in>set ns. parent_id r \<noteq> None \<longrightarrow>
                 (\<exists>f. py_index default_confidences (5 - confidence r) = Inr f)"
    using assms(2) default_factor by (auto simp: list_all_iff)
  from arbor_confidence_returns[OF assms(1) valid assms(3)] obtain ac where
    ac: "arbor_confidence fuel default_confidences ns = Some (Inr ac)" by blast
  from arbor_confidence_right[OF assms(1) ac]
  have roots: "\<forall>r\<in>set ns. parent_id r = None \<longrightarrow> ac (treenode_id r) = Some 1"
    and right: "right_on default_confidences ns ac UNIV" by blast+
  have "\<forall>r\<in>set ns.
          case parent_id r of
            None \<Rightarrow> ac (treenode_id r) = Some 1
          | Some p \<Rightarrow>
              (\<exists>v. ac p = Some v \<and>
                   ac (treenode_id r) = Some (v * default_confidences ! nat (5 - confidence r)))"
  proof
    fix r assume r: "r \<in> set ns"
    show "case parent_id r of
            None \<Rightarrow> ac (treenode_id r) = Some 1
          | Some p \<Rightarrow>
              (\<exists>v. ac p = Some v \<and>
                   ac (treenode_id r) = Some (v * default_confidences ! nat (5 - confidence r)))"
    proof (cases "parent_id r")
      case None
      then show ?thesis using roots r by simp
    next
      case (Some p)
      with right r obtain f v where fv: "py_index default_confidences (5 - confidence r) = Inr f"
        "ac p = Some v" "ac (treenode_id r) = Some (v * f)"
        unfolding right_on_def by blast
      from assms(2) r Some have "1 \<le> confidence r \<and> confidence r \<le> 5"
        by (auto simp: list_all_iff)
      with default_factor fv(1) have "f = default_confidences ! nat (5 - confidence r)" by auto
      then show ?thesis using Some fv by simp
    qed
  qed
  then show ?thesis using ac by (auto simp: default_confidences_def)
qed

theorem arbor_confidence_default_witness:
  "well_formed conf_nodes \<and>
   list_all (\<lambda>r. parent_id r \<noteq> None \<longrightarrow> 1 \<le> confidence r \<and> confidence r \<le> 5) conf_nodes \<and>
   length conf_nodes \<le> 3 \<and>
   (\<exists>ac. arbor_confidence 3 default_confidences conf_nodes = Some (Inr ac) \<and>
         ac 1 = Some 1 \<and> ac 2 = Some (9 / 10) \<and> ac 3 = Some (54 / 100))"
proof -
  have a: "well_formed conf_nodes" by code_simp
  have b: "list_all (\<lambda>r. parent_id r \<noteq> None \<longrightarrow> 1 \<le> confidence r \<and> confidence r \<le> 5) conf_nodes"
    by (simp add: conf_nodes_def mk_node_def)
  have c: "length conf_nodes \<le> 3" by (simp add: conf_nodes_def)
  from arbor_confidence_default[OF a b c] obtain ac where
    ac: "arbor_confidence 3 default_confidences conf_nodes = Some (Inr ac)"
    and col: "\<forall>r\<in>set conf_nodes.
          case parent_id r of
            None \<Rightarrow> ac (treenode_id r) = Some 1
          | Some p \<Rightarrow>
              (\<exists>v. ac p = Some v \<and>
                   ac (treenode_id r) = Some (v * default_confidences ! nat (5 - confidence r)))"
    by blast
  from col have "ac 1 = Some 1 \<and> ac 2 = Some (9 / 10) \<and> ac 3 = Some (54 / 100)"
    by (auto simp: conf_nodes_def mk_node_def default_confidences_def)
  then show ?thesis using a b c ac by blast
qed

text \<open>
  C5 (the claim fails).  Node 3 of the fork has confidence 4 and a root as parent.  The
  table of the claim has 0.2 at index \<open>5 - 4\<close>; the default table of the code has 0.9
  there, and the node gets 0.9.
\<close>

theorem arbor_confidence_table_counterexample:
  "column_values (arbor_confidence 3 default_confidences fork_nodes) [1, 2, 3] =
     Some (Inr [Some 1, Some 1, Some (9 / 10)]) \<and>
   map confidence fork_nodes = [5, 5, 4] \<and>
   py_index spec_confidences (5 - 4) = Inr (2 / 10) \<and>
   py_index default_confidences (5 - 4) = Inr (9 / 10)"
  by code_simp

text \<open>A confidence value 0 has no entry in the default table.\<close>

lemma confidence_zero: "py_index default_confidences (5 - 0) = Inl IndexError"
  by (simp add: py_index_def default_confidences_def)

end
